theory Spec2Isabelle
  imports Main "HOL-Library.Word"
begin

unbundle bit_operations_syntax

section \<open>Common types\<close>

text \<open>
  The decoder and the command encoders of \<^verbatim>\<open>software/command.c\<close>.  Bytes are
  \<^verbatim>\<open>unsigned char\<close>, assembled words are \<^verbatim>\<open>unsigned short\<close>, command words and the
  telemetry record are \<^verbatim>\<open>uint32_t\<close> / \<^verbatim>\<open>unsigned int\<close>.  An access outside an array is
  undefined behaviour in C; here it is an error value that ends the run.
\<close>

type_synonym byte = "8 word"
type_synonym ushort = "16 word"
type_synonym uint32 = "32 word"
type_synonym cells = "nat \<Rightarrow> ushort"

datatype error = ReadPastEnd nat | WritePastEnd int

section \<open>The command encoder \<^verbatim>\<open>cmd_read_datafifo\<close>\<close>

text \<open>
  \<^verbatim>\<open>htonl\<close> is the C library's: the identity on a big-endian host, the reversal of the
  four bytes on a little-endian one.  The flag \<open>le\<close> says which host it is;
  \<open>byte_at k x\<close> is byte \<open>k\<close> of \<open>x\<close> counted from the least significant one, and
  \<open>mem_bytes\<close> lists the bytes of a stored word at increasing addresses on that host.
\<close>

definition byte_at :: "nat \<Rightarrow> uint32 \<Rightarrow> byte" where
  "byte_at k x = ucast (drop_bit (8 * k) x)"

definition bswap32 :: "uint32 \<Rightarrow> uint32" where
  "bswap32 x =
     push_bit 24 (ucast (byte_at 0 x)) OR push_bit 16 (ucast (byte_at 1 x)) OR
     push_bit 8 (ucast (byte_at 2 x)) OR ucast (byte_at 3 x)"

definition htonl :: "bool \<Rightarrow> uint32 \<Rightarrow> uint32" where
  "htonl le x = (if le then bswap32 x else x)"

definition mem_bytes :: "bool \<Rightarrow> uint32 \<Rightarrow> byte list" where
  "mem_bytes le x =
     (if le then [byte_at 0 x, byte_at 1 x, byte_at 2 x, byte_at 3 x]
      else [byte_at 3 x, byte_at 2 x, byte_at 1 x, byte_at 0 x])"

text \<open>Lines 48 to 55: \<^verbatim>\<open>buf[i] = htonl(buf[i])\<close> for every \<open>i\<close> below \<open>n\<close>.\<close>

primrec conv32_loop :: "bool \<Rightarrow> nat list \<Rightarrow> uint32 list \<Rightarrow> error + uint32 list" where
  "conv32_loop le [] buf = Inr buf"
| "conv32_loop le (i # ix) buf =
     (if i < length buf then conv32_loop le ix (buf[i := htonl le (buf ! i)])
      else Inl (WritePastEnd (int i)))"

definition conv32network_endian :: "bool \<Rightarrow> uint32 list \<Rightarrow> nat \<Rightarrow> error + uint32 list" where
  "conv32network_endian le buf n = conv32_loop le [0..<n] buf"

text \<open>\<^verbatim>\<open>buf[k] = v\<close> on the caller's or the allocated array.\<close>

definition put32 :: "uint32 list \<Rightarrow> nat \<Rightarrow> uint32 \<Rightarrow> error + uint32 list" where
  "put32 buf k v = (if k < length buf then Inr (buf[k := v]) else Inl (WritePastEnd (int k)))"

text \<open>
  Lines 166 to 180.  \<open>bufio\<close> is \<^verbatim>\<open>*bufio\<close>: \<open>None\<close> for \<^verbatim>\<open>NULL\<close>, else the array it
  points to.  \<open>calloc_ok\<close> says whether \<^verbatim>\<open>calloc\<close> would succeed.  The result is the
  returned \<^verbatim>\<open>size_t\<close> (64 bits wide here, so that \<^verbatim>\<open>-1\<close> is its largest value) and
  \<^verbatim>\<open>*bufio\<close> afterwards.
\<close>

definition cmd_read_datafifo ::
  "bool \<Rightarrow> bool \<Rightarrow> uint32 list option \<Rightarrow> uint32 \<Rightarrow> error + (64 word \<times> uint32 list option)" where
  "cmd_read_datafifo le calloc_ok bufio n =
     (case (case bufio of
              None \<Rightarrow> (if calloc_ok then Some (replicate 2 0) else None)
            | Some b \<Rightarrow> Some b) of
        None \<Rightarrow> Inr (- 1, bufio)
      | Some buf \<Rightarrow>
          (case put32 buf 0 ((0xffff0000 AND push_bit 16 0x001a) OR (0x0000ffff AND drop_bit 16 n)) of
             Inl e \<Rightarrow> Inl e
           | Inr buf \<Rightarrow>
          (case put32 buf 1 ((0xffff0000 AND push_bit 16 0x0019) OR (0x0000ffff AND n)) of
             Inl e \<Rightarrow> Inl e
           | Inr buf \<Rightarrow>
          (case conv32network_endian le buf 2 of
             Inl e \<Rightarrow> Inl e
           | Inr buf \<Rightarrow> Inr (2 * 4, Some buf)))))"

section \<open>The frame decoder \<^verbatim>\<open>data_cal\<close>\<close>

text \<open>
  The local variables of \<^verbatim>\<open>data_cal\<close> together with the caller's memory it writes
  (\<^verbatim>\<open>maps\<close>, \<^verbatim>\<open>maps_temp\<close>, \<^verbatim>\<open>i2c_data\<close>, \<^verbatim>\<open>*fcounter\<close>) and the values it prints.
  The local \<^verbatim>\<open>odd\<close> is the field \<open>odd_flag\<close>.  The locals \<^verbatim>\<open>header\<close> and
  \<^verbatim>\<open>hsign\<close> and the parameter \<^verbatim>\<open>musk\<close> are never used by the function and are left out.

  The C \<^verbatim>\<open>int\<close> locals are unbounded integers here: \<open>counter\<close> grows by at most one
  per loop iteration and the others only ever hold values decoded from ten or two bits
  (see \<open>scan_keeps_ranges\<close> below), so none of them can overflow.  \<^verbatim>\<open>*fcounter\<close> belongs to the
  caller and lives across calls; it is a 32-bit word whose increment wraps around.

  The two maps are stores from the flat cell index \<^verbatim>\<open>l*960+m\<close> to a 16-bit counter; the
  arrays have \<open>928 * 960\<close> cells and are taken to be disjoint.  \<^verbatim>\<open>i2c_data\<close> is a store
  from the index to the entry; the code writes the entries 0 to 7 only.
\<close>

record dstate =
  w :: byte
  w1 :: byte
  w2 :: byte
  w3 :: byte
  w4 :: byte
  pdata_pre2 :: ushort
  pdata_pre1 :: ushort
  pdata :: ushort
  counter :: int
  odd_flag :: int
  row :: int
  column :: int
  code :: int
  tsign :: int
  ch :: int
  i2c_data_temp :: "nat \<Rightarrow> byte"
  maps :: cells
  maps_temp :: cells
  i2c_data :: "nat \<Rightarrow> uint32"
  fcounter :: "32 word"
  stdout :: "uint32 list"

definition datanum :: nat where
  "datanum = 20000"

definition tailer :: ushort where
  "tailer = 0x5678"

definition ncells :: nat where
  "ncells = 928 * 960"

text \<open>\<^verbatim>\<open>buf[k]\<close>: the buffer is the list of its bytes.\<close>

definition rd :: "byte list \<Rightarrow> nat \<Rightarrow> error + byte" where
  "rd buf k = (if k < length buf then Inr (buf ! k) else Inl (ReadPastEnd k))"

text \<open>
  The staging buffer is declared \<^verbatim>\<open>char i2c_data_temp[8]\<close>.  Whether plain \<^verbatim>\<open>char\<close> is
  signed is the compiler's choice (signed on x86, unsigned on ARM); the flag \<open>schar\<close> says
  which.  The stored eight bits are the same either way; the value an expression sees
  after integer promotion is not.
\<close>

definition char_val :: "bool \<Rightarrow> byte \<Rightarrow> int" where
  "char_val schar b = (if schar then sint b else uint b)"

text \<open>
  Lines 353 to 356.  The \<^verbatim>\<open>for\<close> statement follows the \<^verbatim>\<open>if\<close> that sets \<^verbatim>\<open>counter\<close>
  but is not part of it: it runs on every byte read while no frame is open.
\<close>

primrec stage :: "byte list \<Rightarrow> nat \<Rightarrow> nat list \<Rightarrow> (nat \<Rightarrow> byte) \<Rightarrow> error + (nat \<Rightarrow> byte)" where
  "stage buf i [] t = Inr t"
| "stage buf i (m # ms) t =
     (if i + m < datanum * 4
      then (case rd buf (i + m + 1) of
              Inl e \<Rightarrow> Inl e
            | Inr b \<Rightarrow> stage buf i ms (t(m := b)))
      else stage buf i ms t)"

definition seek :: "byte list \<Rightarrow> nat \<Rightarrow> dstate \<Rightarrow> error + dstate" where
  "seek buf i s =
     (let s = s\<lparr>odd_flag := 1\<rparr>;
          s = (if w1 s = 0xaa \<and> w2 s = 0xaa \<and> w3 s = 0xaa \<and> w4 s = 0xaa
               then s\<lparr>counter := 1\<rparr> else s)
      in case stage buf i [0..<8] (i2c_data_temp s) of
           Inl e \<Rightarrow> Inl e
         | Inr t \<Rightarrow> Inr (s\<lparr>i2c_data_temp := t\<rparr>))"

text \<open>Lines 340 and 341: \<^verbatim>\<open>maps_temp[row*960+column+j] += 1\<close> for each \<open>j\<close>.\<close>

primrec bump :: "int \<Rightarrow> nat list \<Rightarrow> cells \<Rightarrow> error + cells" where
  "bump base [] t = Inr t"
| "bump base (j # js) t =
     (let k = base + int j
      in if 0 \<le> k \<and> k < int ncells
         then bump base js (t(nat k := t (nat k) + 1))
         else Inl (WritePastEnd k))"

text \<open>Lines 332 to 343: the lagged word as a row word or a column and code word.\<close>

definition coordinate :: "dstate \<Rightarrow> error + dstate" where
  "coordinate s =
     (if pdata_pre2 s AND 0x1000 \<noteq> 0
      then Inr (s\<lparr>row := uint (drop_bit 2 (pdata_pre2 s) AND 0x03ff)\<rparr>)
      else
        let s = s\<lparr>column := uint (drop_bit 2 (pdata_pre2 s) AND 0x03ff)\<rparr>;
            s = s\<lparr>code := uint (pdata_pre2 s AND 0x0003)\<rparr>
        in if column s + code s < 960 \<and> row s < 928
           then (case bump (row s * 960 + column s) [0..<nat (code s + 1)] (maps_temp s) of
                   Inl e \<Rightarrow> Inl e
                 | Inr t \<Rightarrow> Inr (s\<lparr>maps_temp := t\<rparr>))
           else Inr s)"

text \<open>
  Lines 294 to 309.  The operands are promoted to \<^verbatim>\<open>int\<close>; every intermediate value is
  below \<open>2 ^ 21\<close> in size, and the result is converted to \<^verbatim>\<open>unsigned int\<close> on assignment.
  Where an operand is negative (a signed \<^verbatim>\<open>char\<close> above 127), \<^verbatim>\<open><<\<close> multiplies and
  \<^verbatim>\<open>>>\<close> shifts arithmetically, as the usual compilers do.
  The comparison with 68 is unsigned.  \<^verbatim>\<open>printf\<close> appends the value to \<open>stdout\<close>.
\<close>

definition telemetry :: "bool \<Rightarrow> dstate \<Rightarrow> dstate" where
  "telemetry schar s =
     (let t = (\<lambda>k. char_val schar (i2c_data_temp s k));
          s = s\<lparr>i2c_data := (i2c_data s)
                (0 := word_of_int (push_bit 16 (t 1 AND 0x0f) + push_bit 8 (t 2) + t 3))\<rparr>;
          s = s\<lparr>i2c_data := (i2c_data s) (1 := word_of_int (drop_bit 4 (t 1 AND 0x30)))\<rparr>;
          s = s\<lparr>i2c_data := (i2c_data s)
                (2 := word_of_int (drop_bit 2 (push_bit 2 (t 4) + drop_bit 6 (t 5))))\<rparr>;
          s = s\<lparr>ch := drop_bit 2 (t 6 AND 0x0c)\<rparr>;
          s = s\<lparr>i2c_data := (i2c_data s) (7 := word_of_int (ch s))\<rparr>;
          v = word_of_int (push_bit 8 (t 6 AND 0x03) + t 7)
      in if ch s = 0 then s\<lparr>i2c_data := (i2c_data s) (3 := v)\<rparr>
         else if ch s = 1 then s\<lparr>i2c_data := (i2c_data s) (4 := v)\<rparr>
         else if ch s = 2 then s\<lparr>i2c_data := (i2c_data s) (5 := v)\<rparr>
         else if ch s = 3 then
           (let s = s\<lparr>i2c_data := (i2c_data s) (6 := v)\<rparr>
            in if 68 < i2c_data s 6 then s\<lparr>stdout := stdout s @ [i2c_data s 6]\<rparr> else s)
         else s)"

text \<open>Lines 314 to 322: the copy of \<^verbatim>\<open>maps_temp\<close> into \<^verbatim>\<open>maps\<close>, cell by cell.\<close>

definition commit_cell :: "nat \<Rightarrow> cells \<times> cells \<Rightarrow> cells \<times> cells" where
  "commit_cell k mt = (case mt of (mp, tmp) \<Rightarrow> (mp(k := tmp k), tmp(k := 0)))"

definition commit :: "cells \<times> cells \<Rightarrow> cells \<times> cells" where
  "commit mt = fold (\<lambda>l. fold (\<lambda>m. commit_cell (l * 960 + m)) [0..<960]) [0..<928] mt"

text \<open>Lines 287 to 323: the second terminator word in a row.\<close>

definition end_of_frame :: "bool \<Rightarrow> 32 word \<Rightarrow> dstate \<Rightarrow> dstate" where
  "end_of_frame schar framadd s =
     (let s = s\<lparr>counter := 0\<rparr>;
          s = s\<lparr>tsign := 0\<rparr>;
          s = s\<lparr>fcounter := fcounter s + 1\<rparr>;
          s = telemetry schar s
      in if fcounter s = framadd
         then (case commit (maps s, maps_temp s) of
                 (mp, tmp) \<Rightarrow> s\<lparr>fcounter := 0, maps := mp, maps_temp := tmp\<rparr>)
         else s)"

text \<open>Lines 281 to 345: what is done with each assembled word.\<close>

definition on_word :: "bool \<Rightarrow> 32 word \<Rightarrow> dstate \<Rightarrow> error + dstate" where
  "on_word schar framadd s =
     (if pdata s = tailer
      then (if tsign s = 0 then Inr (s\<lparr>tsign := 1\<rparr>)
            else Inr (end_of_frame schar framadd s))
      else
        let s = s\<lparr>tsign := 0\<rparr>
        in if 6 < counter s then coordinate s else Inr s)"

text \<open>
  Lines 269 to 280.  \<^verbatim>\<open>pdata + (w << 8)\<close> is computed in \<^verbatim>\<open>int\<close> and cut to sixteen bits
  by the assignment to the \<^verbatim>\<open>unsigned short\<close>.
\<close>

definition in_frame :: "bool \<Rightarrow> 32 word \<Rightarrow> dstate \<Rightarrow> error + dstate" where
  "in_frame schar framadd s =
     (if odd_flag s = 1
      then Inr (s\<lparr>pdata := ucast (w s), odd_flag := 0\<rparr>)
      else
        let s = s\<lparr>pdata := pdata s + push_bit 8 (ucast (w s))\<rparr>;
            s = s\<lparr>odd_flag := 1\<rparr>;
            s = s\<lparr>pdata_pre2 := pdata_pre1 s\<rparr>;
            s = s\<lparr>pdata_pre1 := pdata s\<rparr>;
            s = s\<lparr>counter := counter s + 1\<rparr>
        in on_word schar framadd s)"

text \<open>Lines 262 to 357: one iteration of the loop, at index \<open>i\<close>.\<close>

definition step :: "bool \<Rightarrow> byte list \<Rightarrow> 32 word \<Rightarrow> nat \<Rightarrow> dstate \<Rightarrow> error + dstate" where
  "step schar buf framadd i s =
     (case rd buf i of
        Inl e \<Rightarrow> Inl e
      | Inr b \<Rightarrow>
          let s = s\<lparr>w := b\<rparr>;
              s = s\<lparr>w4 := w3 s\<rparr>;
              s = s\<lparr>w3 := w2 s\<rparr>;
              s = s\<lparr>w2 := w1 s\<rparr>;
              s = s\<lparr>w1 := w s\<rparr>
          in if counter s \<noteq> 0 then in_frame schar framadd s else seek buf i s)"

text \<open>The loop over a list of indices; the first error ends it.\<close>

primrec scan :: "bool \<Rightarrow> byte list \<Rightarrow> 32 word \<Rightarrow> nat list \<Rightarrow> dstate \<Rightarrow> error + dstate" where
  "scan schar buf framadd [] s = Inr s"
| "scan schar buf framadd (i # ix) s =
     (case step schar buf framadd i s of
        Inl e \<Rightarrow> Inl e
      | Inr t \<Rightarrow> scan schar buf framadd ix t)"

text \<open>
  Lines 236 to 258: the locals at the start of every call.  \<^verbatim>\<open>i2c_data_temp\<close> is not
  initialised by the code; \<open>junk\<close> is what the array happens to hold.
\<close>

definition init :: "(nat \<Rightarrow> byte) \<Rightarrow> cells \<Rightarrow> cells \<Rightarrow> (nat \<Rightarrow> uint32) \<Rightarrow> 32 word \<Rightarrow> uint32 list \<Rightarrow> dstate" where
  "init junk mp tmp i2c fc out =
     \<lparr>w = 0, w1 = 0, w2 = 0, w3 = 0, w4 = 0,
      pdata_pre2 = 0, pdata_pre1 = 0, pdata = 0x0000,
      counter = 0, odd_flag = 0, row = 0, column = 0, code = 0, tsign = 0, ch = 0,
      i2c_data_temp = junk,
      maps = mp, maps_temp = tmp, i2c_data = i2c, fcounter = fc, stdout = out\<rparr>"

definition data_cal ::
  "bool \<Rightarrow> (nat \<Rightarrow> byte) \<Rightarrow> byte list \<Rightarrow> cells \<Rightarrow> cells \<Rightarrow> (nat \<Rightarrow> uint32) \<Rightarrow> 32 word \<Rightarrow> 32 word
     \<Rightarrow> uint32 list \<Rightarrow> error + dstate" where
  "data_cal schar junk databuf mp tmp i2c fc framadd out =
     scan schar databuf framadd [0..<datanum * 4] (init junk mp tmp i2c fc out)"

section \<open>Notions used to state the results\<close>

text \<open>
  What lines 338 to 342 do to \<^verbatim>\<open>maps_temp\<close> for a pending row \<open>r\<close>, a column \<open>c\<close> and a
  code \<open>d\<close>, cell by cell (\<open>coordinate_eq\<close> below proves it of the loop).
\<close>

definition hit :: "int \<Rightarrow> int \<Rightarrow> int \<Rightarrow> cells \<Rightarrow> cells" where
  "hit r c d t =
     (if c + d < 960 \<and> r < 928
      then (\<lambda>k. if r * 960 + c \<le> int k \<and> int k \<le> r * 960 + c + d then t k + 1 else t k)
      else t)"

text \<open>A field of the state a run ends in, when it ends without an error.\<close>

definition final :: "(dstate \<Rightarrow> 'a) \<Rightarrow> error + dstate \<Rightarrow> 'a option" where
  "final f r = (case r of Inl e \<Rightarrow> None | Inr t \<Rightarrow> Some (f t))"

definition final_cell :: "nat \<Rightarrow> error + dstate \<Rightarrow> ushort option" where
  "final_cell k r = (case r of Inl e \<Rightarrow> None | Inr t \<Rightarrow> Some (maps_temp t k))"

text \<open>
  The channel identifier and the channel value that lines 297 to 304 compute from a
  staged block \<open>b\<close>, as the code's expressions.
\<close>

definition channel :: "bool \<Rightarrow> (nat \<Rightarrow> byte) \<Rightarrow> int" where
  "channel schar b = drop_bit 2 (char_val schar (b 6) AND 0x0c)"

definition channel_value :: "bool \<Rightarrow> (nat \<Rightarrow> byte) \<Rightarrow> uint32" where
  "channel_value schar b =
     word_of_int (push_bit 8 (char_val schar (b 6) AND 0x03) + char_val schar (b 7))"

text \<open>What lines 305 to 308 print for a staged block \<open>b\<close>.\<close>

definition advisory :: "bool \<Rightarrow> (nat \<Rightarrow> byte) \<Rightarrow> uint32 list" where
  "advisory schar b =
     (if channel schar b = 3 \<and> 68 < channel_value schar b then [channel_value schar b] else [])"

text \<open>The values the \<^verbatim>\<open>int\<close> locals can take in a run.\<close>

definition ranges :: "dstate \<Rightarrow> bool" where
  "ranges s \<longleftrightarrow>
     0 \<le> counter s \<and> 0 \<le> row s \<and> row s < 1024 \<and> 0 \<le> column s \<and> column s < 1024 \<and>
     0 \<le> code s \<and> code s < 4 \<and> 0 \<le> ch s \<and> ch s < 4 \<and>
     (odd_flag s = 0 \<or> odd_flag s = 1) \<and> (tsign s = 0 \<or> tsign s = 1)"

text \<open>A state with every local, every cell and every record field zero.\<close>

definition blank :: dstate where
  "blank = init (\<lambda>_. 0) (\<lambda>_. 0) (\<lambda>_. 0) (\<lambda>_. 0) 0 []"

section \<open>Basic facts about the loops\<close>

lemma commit_cell_pair: "commit_cell k (mp, tmp) = (mp(k := tmp k), tmp(k := 0))"
  by (simp add: commit_cell_def)

lemma commit_row:
  "fold (\<lambda>m. commit_cell (b + m)) [0..<n] (mp, tmp) =
     (\<lambda>k. if b \<le> k \<and> k < b + n then tmp k else mp k,
      \<lambda>k. if b \<le> k \<and> k < b + n then 0 else tmp k)"
proof (induction n)
  case 0
  show ?case by (auto simp add: fun_eq_iff)
next
  case (Suc n)
  show ?case
    by (auto simp add: Suc commit_cell_pair fun_eq_iff)
qed

lemma commit_rows:
  "fold (\<lambda>l. fold (\<lambda>m. commit_cell (l * 960 + m)) [0..<960]) [0..<r] (mp, tmp) =
     (\<lambda>k. if k < r * 960 then tmp k else mp k,
      \<lambda>k. if k < r * 960 then 0 else tmp k)"
proof (induction r)
  case 0
  show ?case by simp
next
  case (Suc r)
  show ?case
    by (simp add: Suc commit_row fun_eq_iff)
qed

lemma commit_eq:
  "commit (mp, tmp) =
     (\<lambda>k. if k < ncells then tmp k else mp k, \<lambda>k. if k < ncells then 0 else tmp k)"
  using commit_rows [of 928 mp tmp] by (simp add: commit_def ncells_def)

lemma bump_append:
  "bump base (xs @ ys) t = (case bump base xs t of Inl e \<Rightarrow> Inl e | Inr u \<Rightarrow> bump base ys u)"
  by (induction xs arbitrary: t) (simp_all add: Let_def)

lemma bump_upt:
  "0 \<le> base \<Longrightarrow> base + int n \<le> int ncells \<Longrightarrow>
   bump base [0..<n] t =
     Inr (\<lambda>k. if base \<le> int k \<and> int k < base + int n then t k + 1 else t k)"
proof (induction n)
  case 0
  show ?case by (simp add: fun_eq_iff)
next
  case (Suc n)
  then have "bump base [0..<n] t =
     Inr (\<lambda>k. if base \<le> int k \<and> int k < base + int n then t k + 1 else t k)"
    by simp
  with Suc.prems show ?case
    by (auto simp add: bump_append Let_def fun_eq_iff)
qed

lemma coordinate_eq:
  assumes "0 \<le> row s"
  shows "coordinate s =
     Inr (if pdata_pre2 s AND 0x1000 \<noteq> 0
          then s\<lparr>row := uint (drop_bit 2 (pdata_pre2 s) AND 0x03ff)\<rparr>
          else s\<lparr>column := uint (drop_bit 2 (pdata_pre2 s) AND 0x03ff),
                 code := uint (pdata_pre2 s AND 0x0003),
                 maps_temp := hit (row s) (uint (drop_bit 2 (pdata_pre2 s) AND 0x03ff))
                                (uint (pdata_pre2 s AND 0x0003)) (maps_temp s)\<rparr>)"
proof -
  define c where "c = uint (drop_bit 2 (pdata_pre2 s) AND 0x03ff)"
  define d where "d = uint (pdata_pre2 s AND 0x0003)"
  have nonneg: "0 \<le> c" "0 \<le> d"
    by (simp_all add: c_def d_def)
  have in_range: "bump (row s * 960 + c) [0..<nat (d + 1)] (maps_temp s) =
      Inr (hit (row s) c d (maps_temp s))" if "c + d < 960" and "row s < 928"
  proof -
    have "bump (row s * 960 + c) [0..<nat (d + 1)] (maps_temp s) =
      Inr (\<lambda>k. if row s * 960 + c \<le> int k \<and> int k < row s * 960 + c + int (nat (d + 1))
               then maps_temp s k + 1 else maps_temp s k)"
      using assms nonneg that by (intro bump_upt) (simp_all add: ncells_def)
    with nonneg that show ?thesis
      by (simp add: hit_def fun_eq_iff)
  qed
  have "coordinate s =
     Inr (if pdata_pre2 s AND 0x1000 \<noteq> 0
          then s\<lparr>row := c\<rparr>
          else s\<lparr>column := c, code := d, maps_temp := hit (row s) c d (maps_temp s)\<rparr>)"
    by (simp add: coordinate_def Let_def c_def [symmetric] d_def [symmetric] in_range)
      (simp add: hit_def)
  then show ?thesis
    by (simp only: c_def d_def)
qed

lemma telemetry_frame [simp]:
  "w (telemetry schar s) = w s" "w1 (telemetry schar s) = w1 s" "w2 (telemetry schar s) = w2 s"
  "w3 (telemetry schar s) = w3 s" "w4 (telemetry schar s) = w4 s"
  "pdata_pre2 (telemetry schar s) = pdata_pre2 s" "pdata_pre1 (telemetry schar s) = pdata_pre1 s"
  "pdata (telemetry schar s) = pdata s" "counter (telemetry schar s) = counter s"
  "odd_flag (telemetry schar s) = odd_flag s" "row (telemetry schar s) = row s"
  "column (telemetry schar s) = column s" "code (telemetry schar s) = code s"
  "tsign (telemetry schar s) = tsign s"
  "i2c_data_temp (telemetry schar s) = i2c_data_temp s"
  "maps (telemetry schar s) = maps s" "maps_temp (telemetry schar s) = maps_temp s"
  "fcounter (telemetry schar s) = fcounter s"
  by (simp_all add: telemetry_def Let_def)

lemma end_of_frame_locals [simp]:
  "w (end_of_frame schar framadd s) = w s" "w1 (end_of_frame schar framadd s) = w1 s"
  "w2 (end_of_frame schar framadd s) = w2 s" "w3 (end_of_frame schar framadd s) = w3 s"
  "w4 (end_of_frame schar framadd s) = w4 s"
  "pdata_pre2 (end_of_frame schar framadd s) = pdata_pre2 s"
  "pdata_pre1 (end_of_frame schar framadd s) = pdata_pre1 s"
  "pdata (end_of_frame schar framadd s) = pdata s"
  "counter (end_of_frame schar framadd s) = 0"
  "odd_flag (end_of_frame schar framadd s) = odd_flag s"
  "row (end_of_frame schar framadd s) = row s"
  "column (end_of_frame schar framadd s) = column s"
  "code (end_of_frame schar framadd s) = code s"
  "tsign (end_of_frame schar framadd s) = 0"
  "i2c_data_temp (end_of_frame schar framadd s) = i2c_data_temp s"
  by (simp_all add: end_of_frame_def Let_def split: prod.split)

lemma end_of_frame_fcounter:
  "fcounter (end_of_frame schar framadd s) =
     (if fcounter s + 1 = framadd then 0 else fcounter s + 1)"
  by (simp add: end_of_frame_def Let_def split: prod.split)

lemma end_of_frame_maps:
  "maps (end_of_frame schar framadd s) =
     (if fcounter s + 1 = framadd
      then (\<lambda>k. if k < ncells then maps_temp s k else maps s k) else maps s)"
  "maps_temp (end_of_frame schar framadd s) =
     (if fcounter s + 1 = framadd
      then (\<lambda>k. if k < ncells then 0 else maps_temp s k) else maps_temp s)"
  by (simp_all add: end_of_frame_def Let_def commit_eq)

lemma low_high_or:
  fixes lo hi :: byte
  shows "(ucast lo :: ushort) + push_bit 8 (ucast hi) = ucast lo OR push_bit 8 (ucast hi)"
  by (rule disjunctive_add_eq_or) (auto simp add: bit_eq_iff bit_simps dest: bit_imp_le_length)

lemmas step_defs = step_def rd_def in_frame_def on_word_def Let_def

lemma bump_cases: "(\<exists>e. bump base js t = Inl e) \<or> (\<exists>u. bump base js t = Inr u)"
  by (cases "bump base js t") simp_all

lemma stage_cases: "(\<exists>e. stage buf i ms t = Inl e) \<or> (\<exists>u. stage buf i ms t = Inr u)"
  by (cases "stage buf i ms t") simp_all

lemma seeking_step_keeps:
  assumes "counter s = 0" and "step schar buf framadd j s = Inr u"
  shows "fcounter u = fcounter s \<and> maps u = maps s \<and> maps_temp u = maps_temp s \<and>
         i2c_data u = i2c_data s \<and> tsign u = tsign s"
  using assms stage_cases [of buf j "[0..<8]" "i2c_data_temp s"]
  by (auto simp add: step_def rd_def Let_def seek_def split: if_splits)

section \<open>The frame boundary\<close>

text \<open>
  C1.  The terminator word \<open>0x5678\<close> arrives as the bytes \<open>0x78\<close>, \<open>0x56\<close>.  In an open
  frame with no terminator pending, one terminator word only sets \<open>tsign\<close>: the frame
  stays open and neither the frame counter nor a map changes.  If the next word is not
  the terminator, \<open>tsign\<close> is cleared again and the frame is still open, with the frame
  counter, both maps and the telemetry record as they were.  If the next word is the
  terminator too, the frame ends there: \<open>tsign\<close> is cleared, \<open>counter\<close> is 0 (the scanner
  seeks the next marker) and \<^verbatim>\<open>*fcounter\<close> has been incremented once, by 1; what is left
  in it is that value, or 0 when that value is \<open>framadd\<close> and the maps are committed.
  Once \<open>counter\<close> is 0 no iteration counts a frame or touches a map, whatever byte it
  reads, so the frame is counted once.
\<close>

theorem terminator_confirmation:
  assumes "i + 3 < length buf" and "0 < counter s" and "odd_flag s = 1" and "tsign s = 0"
    and "buf ! i = 0x78" and "buf ! (i + 1) = 0x56"
  shows "\<exists>t1. scan schar buf framadd [i, i + 1] s = Inr t1 \<and>
           counter t1 = counter s + 1 \<and> tsign t1 = 1 \<and> fcounter t1 = fcounter s \<and>
           maps t1 = maps s \<and> maps_temp t1 = maps_temp s \<and>
           (ucast (buf ! (i + 2)) + push_bit 8 (ucast (buf ! (i + 3))) \<noteq> tailer \<longrightarrow>
              (\<exists>t. scan schar buf framadd [i + 2, i + 3] t1 = Inr t \<and> tsign t = 0 \<and>
                 counter t = counter s + 2 \<and> fcounter t = fcounter s \<and>
                 maps t = maps s \<and> maps_temp t = maps_temp s \<and> i2c_data t = i2c_data s)) \<and>
           (ucast (buf ! (i + 2)) + push_bit 8 (ucast (buf ! (i + 3))) = tailer \<longrightarrow>
              (\<exists>t. scan schar buf framadd [i + 2, i + 3] t1 = Inr t \<and> tsign t = 0 \<and>
                 counter t = 0 \<and>
                 fcounter t = (if fcounter s + 1 = framadd then 0 else fcounter s + 1))) \<and>
         (\<forall>t j u. counter t = 0 \<and> step schar buf framadd j t = Inr u \<longrightarrow>
            fcounter u = fcounter t \<and> maps u = maps t \<and> maps_temp u = maps_temp t)"
proof -
  have words: "\<exists>t1. scan schar buf framadd [i, i + 1] s = Inr t1 \<and>
           counter t1 = counter s + 1 \<and> tsign t1 = 1 \<and> fcounter t1 = fcounter s \<and>
           maps t1 = maps s \<and> maps_temp t1 = maps_temp s \<and>
           (ucast (buf ! (i + 2)) + push_bit 8 (ucast (buf ! (i + 3))) \<noteq> tailer \<longrightarrow>
              (\<exists>t. scan schar buf framadd [i + 2, i + 3] t1 = Inr t \<and> tsign t = 0 \<and>
                 counter t = counter s + 2 \<and> fcounter t = fcounter s \<and>
                 maps t = maps s \<and> maps_temp t = maps_temp s \<and> i2c_data t = i2c_data s)) \<and>
           (ucast (buf ! (i + 2)) + push_bit 8 (ucast (buf ! (i + 3))) = tailer \<longrightarrow>
              (\<exists>t. scan schar buf framadd [i + 2, i + 3] t1 = Inr t \<and> tsign t = 0 \<and>
                 counter t = 0 \<and>
                 fcounter t = (if fcounter s + 1 = framadd then 0 else fcounter s + 1)))"
    using assms
    by (simp add: step_defs tailer_def coordinate_def end_of_frame_fcounter)
  have "fcounter u = fcounter t \<and> maps u = maps t \<and> maps_temp u = maps_temp t"
    if "counter t = 0 \<and> step schar buf framadd j t = Inr u" for t j u
    using that seeking_step_keeps [of t schar buf framadd j u] by simp
  with words show ?thesis
    by blast
qed

theorem terminator_confirmation_witness:
  "(\<exists>t1. scan True [0x78, 0x56, 0x78, 0x56] 5 [0, 0 + 1]
            (blank\<lparr>counter := 9, odd_flag := 1, fcounter := 3\<rparr>) = Inr t1 \<and>
          counter t1 = 10 \<and> tsign t1 = 1 \<and> fcounter t1 = 3 \<and>
          (\<exists>t. scan True [0x78, 0x56, 0x78, 0x56] 5 [0 + 2, 0 + 3] t1 = Inr t \<and>
               tsign t = 0 \<and> counter t = 0 \<and> fcounter t = 4)) \<and>
   (\<exists>t1. scan True [0x78, 0x56, 0x34, 0x12] 5 [0, 0 + 1]
            (blank\<lparr>counter := 9, odd_flag := 1, fcounter := 3\<rparr>) = Inr t1 \<and>
          counter t1 = 10 \<and> tsign t1 = 1 \<and> fcounter t1 = 3 \<and>
          (\<exists>t. scan True [0x78, 0x56, 0x34, 0x12] 5 [0 + 2, 0 + 3] t1 = Inr t \<and>
               tsign t = 0 \<and> counter t = 11 \<and> fcounter t = 3))"
  using terminator_confirmation [of 0 "[0x78, 0x56, 0x78, 0x56]"
      "blank\<lparr>counter := 9, odd_flag := 1, fcounter := 3\<rparr>" True 5]
    terminator_confirmation [of 0 "[0x78, 0x56, 0x34, 0x12]"
      "blank\<lparr>counter := 9, odd_flag := 1, fcounter := 3\<rparr>" True 5]
  by (auto simp add: blank_def init_def tailer_def)

section \<open>The word assembler\<close>

text \<open>
  C7.  In an open frame at the phase \<open>odd_flag = 1\<close>, the first byte of a pair only
  becomes the pending low byte: no word is produced, the history and the word counter
  stay.  The second byte completes the word \<open>low OR (high << 8)\<close>; the history is
  shifted (\<open>pdata_pre2\<close> takes the old \<open>pdata_pre1\<close>, \<open>pdata_pre1\<close> the new word), the
  phase is back at 1 and \<open>counter\<close> has been incremented by 1.  The state machine that
  then receives the word leaves \<open>counter\<close> at that value unless the word is the second
  terminator in a row, which closes the frame and sets it to 0.
\<close>

theorem word_assembly:
  assumes "i + 1 < length buf" and "counter s \<noteq> 0" and "odd_flag s = 1" and "0 \<le> row s"
  shows "\<exists>t0 t. step schar buf framadd i s = Inr t0 \<and>
           odd_flag t0 = 0 \<and> pdata t0 = ucast (buf ! i) \<and> counter t0 = counter s \<and>
           pdata_pre1 t0 = pdata_pre1 s \<and> pdata_pre2 t0 = pdata_pre2 s \<and>
           step schar buf framadd (i + 1) t0 = Inr t \<and>
           pdata t = ucast (buf ! i) OR push_bit 8 (ucast (buf ! (i + 1))) \<and>
           pdata_pre1 t = pdata t \<and> pdata_pre2 t = pdata_pre1 s \<and> odd_flag t = 1 \<and>
           counter t = (if pdata t = tailer \<and> tsign s \<noteq> 0 then 0 else counter s + 1)"
  using assms
  by (simp add: step_defs low_high_or coordinate_eq)

theorem word_assembly_witness:
  "\<exists>t0 t. step False [0x34, 0x12] 5 0
            (blank\<lparr>counter := 3, odd_flag := 1, pdata_pre1 := 0xbeef\<rparr>) = Inr t0 \<and>
          pdata t0 = 0x34 \<and> odd_flag t0 = 0 \<and> counter t0 = 3 \<and>
          step False [0x34, 0x12] 5 (0 + 1) t0 = Inr t \<and>
          pdata t = 0x1234 \<and> pdata_pre1 t = 0x1234 \<and> pdata_pre2 t = 0xbeef \<and>
          odd_flag t = 1 \<and> counter t = 4"
  using word_assembly [of 0 "[0x34, 0x12]"
      "blank\<lparr>counter := 3, odd_flag := 1, pdata_pre1 := 0xbeef\<rparr>" False 5]
  by (auto simp add: blank_def init_def tailer_def)

section \<open>Coordinate words\<close>

text \<open>
  C2, as the code has it.  When a word other than the terminator is completed in an
  open frame, \<open>tsign\<close> is cleared, and the word that is decoded is \<open>pdata_pre2\<close> as it
  stands after the history shift: the word completed just before the current one, one
  position behind it (not two).  That decoding takes place exactly when \<open>counter\<close>,
  already incremented for the current word, exceeds 6.  Then, if bit \<open>0x1000\<close> of the
  lagged word is set, \<open>row\<close> becomes \<open>(lagged >> 2) AND 0x3FF\<close> and no cell changes;
  otherwise \<open>column\<close> and \<open>code\<close> are decoded from it and the bounds-checked hit is made
  on the pending row.  While \<open>counter\<close> is 6 or less nothing is decoded.
\<close>

theorem lagged_word_decoding:
  assumes "i < length buf" and "counter s \<noteq> 0" and "odd_flag s \<noteq> 1"
    and "pdata s + push_bit 8 (ucast (buf ! i)) \<noteq> tailer" and "0 \<le> row s"
  shows "\<exists>t. step schar buf framadd i s = Inr t \<and> tsign t = 0 \<and>
           pdata_pre1 t = pdata s + push_bit 8 (ucast (buf ! i)) \<and>
           pdata_pre2 t = pdata_pre1 s \<and> counter t = counter s + 1 \<and>
           (if 6 < counter s + 1
            then (if pdata_pre1 s AND 0x1000 \<noteq> 0
                  then row t = uint (drop_bit 2 (pdata_pre1 s) AND 0x3ff) \<and>
                       column t = column s \<and> code t = code s \<and> maps_temp t = maps_temp s
                  else row t = row s \<and>
                       column t = uint (drop_bit 2 (pdata_pre1 s) AND 0x3ff) \<and>
                       code t = uint (pdata_pre1 s AND 0x3) \<and>
                       maps_temp t = hit (row s) (column t) (code t) (maps_temp s))
            else row t = row s \<and> column t = column s \<and> code t = code s \<and>
                 maps_temp t = maps_temp s)"
  using assms
  by (simp add: step_defs coordinate_eq)

theorem lagged_word_decoding_witness:
  "\<exists>t. step True [0x00, 0x00] 5 (0 + 1)
          (blank\<lparr>counter := 7, pdata_pre1 := 0x000a, pdata_pre2 := 0x1004, row := 3\<rparr>) = Inr t \<and>
        pdata_pre2 t = 0x000a \<and> row t = 3 \<and> column t = 2 \<and> code t = 2 \<and>
        maps_temp t (3 * 960 + 1) = 0 \<and> maps_temp t (3 * 960 + 2) = 1 \<and>
        maps_temp t (3 * 960 + 4) = 1 \<and> maps_temp t (3 * 960 + 5) = 0"
  using lagged_word_decoding [of "0 + 1" "[0x00, 0x00]"
      "blank\<lparr>counter := 7, pdata_pre1 := 0x000a, pdata_pre2 := 0x1004, row := 3\<rparr>" True 5]
  by (auto simp add: blank_def init_def tailer_def hit_def)

text \<open>
  C2 as stated fails on the code.  Three words are completed in an open frame with
  \<open>counter\<close> beyond 6: \<open>0x1004\<close> (a row word, row 1), then \<open>0x0008\<close> (column 2, code 0),
  then \<open>0x0000\<close>.  While the third word is processed, the word two positions behind it
  is \<open>0x1004\<close>, whose bit \<open>0x1000\<close> is set, so by the claim no hit is recorded for that
  word.  The code decodes \<open>0x0008\<close>, the word one position behind, and increments the
  cell of row 1, column 2: it is 0 after the second word and 1 after the third.
\<close>

theorem two_word_lag_counterexample:
  "(0x1004 :: ushort) AND 0x1000 \<noteq> 0 \<and>
   final_cell (1 * 960 + 2)
     (scan True [0x04, 0x10, 0x08, 0x00, 0x00, 0x00] 5 [0, 1, 2, 3]
        (blank\<lparr>counter := 10, odd_flag := 1, pdata_pre1 := 0x1000\<rparr>)) = Some 0 \<and>
   final_cell (1 * 960 + 2)
     (scan True [0x04, 0x10, 0x08, 0x00, 0x00, 0x00] 5 [0, 1, 2, 3, 4, 5]
        (blank\<lparr>counter := 10, odd_flag := 1, pdata_pre1 := 0x1000\<rparr>)) = Some 1 \<and>
   final row
     (scan True [0x04, 0x10, 0x08, 0x00, 0x00, 0x00] 5 [0, 1, 2, 3]
        (blank\<lparr>counter := 10, odd_flag := 1, pdata_pre1 := 0x1000\<rparr>)) = Some 1"
  by (simp add: final_cell_def final_def blank_def init_def step_defs tailer_def
      coordinate_eq hit_def)

lemma hit_changed:
  assumes "0 \<le> r" and "0 \<le> c" and "0 \<le> d" and "c + d < 960" and "r < 928"
  shows "{k. hit r c d t k \<noteq> t k} = {nat (r * 960 + c)..<nat (r * 960 + c + d + 1)}"
proof -
  have "x + 1 \<noteq> x" for x :: ushort
    by simp
  with assms show ?thesis
    by (auto simp add: hit_def)
qed

text \<open>
  C3.  A hit is attempted when the lagged word of a decoded step has bit \<open>0x1000\<close>
  clear.  With the pending row below 928 and \<open>column + code\<close> below 960, the cells
  \<open>row * 960 + column\<close> up to \<open>row * 960 + column + code\<close> of \<^verbatim>\<open>maps_temp\<close> are each
  incremented by 1 (a 16-bit increment, which wraps at 65535), these are \<open>code + 1\<close>
  cells, and every other cell of \<^verbatim>\<open>maps_temp\<close> keeps its value.  Otherwise \<^verbatim>\<open>maps_temp\<close>
  is unchanged.  \<^verbatim>\<open>maps\<close> is unchanged in both cases, and the step reports no error.
\<close>

theorem hit_cells:
  assumes "i < length buf" and "counter s \<noteq> 0" and "odd_flag s \<noteq> 1"
    and "pdata s + push_bit 8 (ucast (buf ! i)) \<noteq> tailer" and "6 < counter s + 1"
    and "pdata_pre1 s AND 0x1000 = 0" and "0 \<le> row s"
  shows "\<exists>t. step schar buf framadd i s = Inr t \<and> maps t = maps s \<and> row t = row s \<and>
           column t = uint (drop_bit 2 (pdata_pre1 s) AND 0x3ff) \<and>
           code t = uint (pdata_pre1 s AND 0x3) \<and>
           (if row s < 928 \<and> column t + code t < 960
            then (\<forall>k. maps_temp t k =
                        (if row s * 960 + column t \<le> int k \<and>
                            int k \<le> row s * 960 + column t + code t
                         then maps_temp s k + 1 else maps_temp s k)) \<and>
                 card {k. maps_temp t k \<noteq> maps_temp s k} = nat (code t + 1)
            else maps_temp t = maps_temp s)"
proof -
  define c where "c = uint (drop_bit 2 (pdata_pre1 s) AND 0x3ff)"
  define d where "d = uint (pdata_pre1 s AND 0x3)"
  define t where "t = s\<lparr>w := buf ! i, w4 := w3 s, w3 := w2 s, w2 := w1 s, w1 := buf ! i,
      pdata := pdata s + push_bit 8 (ucast (buf ! i)), odd_flag := 1,
      pdata_pre2 := pdata_pre1 s, pdata_pre1 := pdata s + push_bit 8 (ucast (buf ! i)),
      counter := counter s + 1, tsign := 0, column := c, code := d,
      maps_temp := hit (row s) c d (maps_temp s)\<rparr>"
  have run: "step schar buf framadd i s = Inr t"
    using assms by (simp add: step_defs coordinate_eq t_def c_def d_def)
  have nonneg: "0 \<le> c" "0 \<le> d"
    by (simp_all add: c_def d_def)
  have changed: "card {k. hit (row s) c d (maps_temp s) k \<noteq> maps_temp s k} = nat (d + 1)"
    if "row s < 928" and "c + d < 960"
    using assms(7) nonneg that by (simp add: hit_changed)
  have fields: "maps t = maps s" "row t = row s" "column t = c" "code t = d"
    by (simp_all add: t_def)
  have cells: "if row s < 928 \<and> c + d < 960
         then (\<forall>k. maps_temp t k =
                     (if row s * 960 + c \<le> int k \<and> int k \<le> row s * 960 + c + d
                      then maps_temp s k + 1 else maps_temp s k)) \<and>
              card {k. maps_temp t k \<noteq> maps_temp s k} = nat (d + 1)
         else maps_temp t = maps_temp s"
  proof (cases "row s < 928 \<and> c + d < 960")
    case True
    then have "\<forall>k. maps_temp t k =
                     (if row s * 960 + c \<le> int k \<and> int k \<le> row s * 960 + c + d
                      then maps_temp s k + 1 else maps_temp s k)"
      by (simp add: t_def hit_def)
    moreover have "card {k. maps_temp t k \<noteq> maps_temp s k} = nat (d + 1)"
      using changed True by (simp add: t_def)
    ultimately show ?thesis
      using True by simp
  next
    case False
    then show ?thesis
      by (auto simp add: t_def hit_def)
  qed
  show ?thesis
    unfolding c_def [symmetric] d_def [symmetric]
    by (rule exI [of _ t]) (use run fields cells in \<open>simp only: simp_thms\<close>)
qed

theorem hit_cells_witness:
  "(\<exists>t. step True [0x00, 0x00] 5 (0 + 1)
          (blank\<lparr>counter := 7, pdata_pre1 := 0x000a, row := 3\<rparr>) = Inr t \<and>
        maps_temp t (3 * 960 + 1) = 0 \<and> maps_temp t (3 * 960 + 2) = 1 \<and>
        maps_temp t (3 * 960 + 3) = 1 \<and> maps_temp t (3 * 960 + 4) = 1 \<and>
        maps_temp t (3 * 960 + 5) = 0) \<and>
   (\<exists>t. step True [0x00, 0x00] 5 (0 + 1)
          (blank\<lparr>counter := 7, pdata_pre1 := 0x000a, row := 930\<rparr>) = Inr t \<and>
        maps_temp t = (\<lambda>_. 0))"
  using hit_cells [of "0 + 1" "[0x00, 0x00]"
      "blank\<lparr>counter := 7, pdata_pre1 := 0x000a, row := 3\<rparr>" True 5]
    hit_cells [of "0 + 1" "[0x00, 0x00]"
      "blank\<lparr>counter := 7, pdata_pre1 := 0x000a, row := 930\<rparr>" True 5]
  by (auto simp add: blank_def init_def tailer_def)

section \<open>The commit of the hit map\<close>

lemma frame_number_not_due:
  fixes framadd :: "32 word"
  assumes "int j + 1 < sint framadd"
  shows "(of_nat j :: 32 word) + 1 \<noteq> framadd"
proof
  assume eq: "(of_nat j :: 32 word) + 1 = framadd"
  have "sint framadd < 2 ^ 31"
    using sint_lt [of framadd] by simp
  with assms have small: "int j + 1 < 2 ^ 31"
    by linarith
  have "(of_nat j :: 32 word) + 1 = word_of_int (int j + 1)"
    by simp
  then have "sint ((of_nat j :: 32 word) + 1) = signed_take_bit 31 (int j + 1)"
    by (simp only: sint_sbintrunc') simp
  also have "\<dots> = int j + 1"
    using small by (intro signed_take_bit_int_eq_self) simp_all
  finally have "sint framadd = int j + 1"
    by (simp only: eq)
  with assms show False
    by simp
qed

text \<open>
  C4.  The step that completes a frame (the second terminator word in a row) increments
  \<^verbatim>\<open>*fcounter\<close> and then compares it with \<open>framadd\<close>.  If they are equal, every cell of
  \<^verbatim>\<open>maps\<close> receives the cell of \<^verbatim>\<open>maps_temp\<close>, every cell of \<^verbatim>\<open>maps_temp\<close> becomes 0 and
  \<^verbatim>\<open>*fcounter\<close> becomes 0.  If they differ, both maps are left as they are and
  \<^verbatim>\<open>*fcounter\<close> keeps the incremented value.  In particular, when \<open>j\<close> frames have been
  completed since the last commit and \<open>j + 1\<close> is below \<open>framadd\<close>, the frame leaves
  \<^verbatim>\<open>maps\<close> unchanged and is counted as frame \<open>j + 1\<close>; the frame numbered \<open>framadd\<close> is the
  one that commits.
\<close>

theorem commit_when_due:
  assumes "i < length buf" and "counter s \<noteq> 0" and "odd_flag s \<noteq> 1"
    and "pdata s + push_bit 8 (ucast (buf ! i)) = tailer" and "tsign s \<noteq> 0"
  shows "\<exists>t. step schar buf framadd i s = Inr t \<and>
           (if fcounter s + 1 = framadd
            then (\<forall>k<ncells. maps t k = maps_temp s k \<and> maps_temp t k = 0) \<and> fcounter t = 0
            else maps t = maps s \<and> maps_temp t = maps_temp s \<and>
                 fcounter t = fcounter s + 1) \<and>
           (\<forall>j. fcounter s = of_nat j \<and> int j + 1 < sint framadd \<longrightarrow>
                maps t = maps s \<and> maps_temp t = maps_temp s \<and> fcounter t = of_nat (j + 1)) \<and>
           (\<forall>j. fcounter s = of_nat j \<and> int j + 1 = sint framadd \<longrightarrow>
                (\<forall>k<ncells. maps t k = maps_temp s k \<and> maps_temp t k = 0) \<and> fcounter t = 0)"
proof -
  have run: "step schar buf framadd i s = Inr (end_of_frame schar framadd
      (s\<lparr>w := buf ! i, w4 := w3 s, w3 := w2 s, w2 := w1 s, w1 := buf ! i,
         pdata := tailer, odd_flag := 1, pdata_pre2 := pdata_pre1 s, pdata_pre1 := tailer,
         counter := counter s + 1\<rparr>))" (is "_ = Inr ?t")
    using assms by (simp add: step_defs)
  have first: "if fcounter s + 1 = framadd
      then (\<forall>k<ncells. maps ?t k = maps_temp s k \<and> maps_temp ?t k = 0) \<and> fcounter ?t = 0
      else maps ?t = maps s \<and> maps_temp ?t = maps_temp s \<and> fcounter ?t = fcounter s + 1"
    by (simp add: end_of_frame_maps end_of_frame_fcounter)
  have before: "maps ?t = maps s \<and> maps_temp ?t = maps_temp s \<and> fcounter ?t = of_nat (j + 1)"
    if "fcounter s = of_nat j \<and> int j + 1 < sint framadd" for j
    using that frame_number_not_due [of j framadd]
    by (simp add: end_of_frame_maps end_of_frame_fcounter)
  have due: "(\<forall>k<ncells. maps ?t k = maps_temp s k \<and> maps_temp ?t k = 0) \<and> fcounter ?t = 0"
    if "fcounter s = of_nat j \<and> int j + 1 = sint framadd" for j
  proof -
    have "(word_of_int (sint framadd) :: 32 word) = framadd"
      by simp
    with that have "fcounter s + 1 = framadd"
      by (metis of_int_of_nat_eq of_int_add of_int_1)
    then show ?thesis
      by (simp add: end_of_frame_maps end_of_frame_fcounter)
  qed
  from run first before due show ?thesis
    by blast
qed

theorem commit_when_due_witness:
  "(\<exists>t. step True [0x00, 0x56] 2 (0 + 1)
          (blank\<lparr>counter := 9, tsign := 1, pdata := 0x78, fcounter := 1,
                 maps_temp := (\<lambda>k. if k = 5 then 7 else 0)\<rparr>) = Inr t \<and>
        maps t 5 = 7 \<and> maps_temp t 5 = 0 \<and> fcounter t = 0) \<and>
   (\<exists>t. step True [0x00, 0x56] 2 (0 + 1)
          (blank\<lparr>counter := 9, tsign := 1, pdata := 0x78, fcounter := 0,
                 maps_temp := (\<lambda>k. if k = 5 then 7 else 0)\<rparr>) = Inr t \<and>
        maps t 5 = 0 \<and> maps_temp t 5 = 7 \<and> fcounter t = 1)"
proof -
  have cell: "(5::nat) < ncells"
    by (simp add: ncells_def)
  show ?thesis
    using cell
      commit_when_due [of "0 + 1" "[0x00, 0x56]"
        "blank\<lparr>counter := 9, tsign := 1, pdata := 0x78, fcounter := 1,
               maps_temp := (\<lambda>k. if k = 5 then 7 else 0)\<rparr>" True 2]
      commit_when_due [of "0 + 1" "[0x00, 0x56]"
        "blank\<lparr>counter := 9, tsign := 1, pdata := 0x78, fcounter := 0,
               maps_temp := (\<lambda>k. if k = 5 then 7 else 0)\<rparr>" True 2]
    by (auto simp add: blank_def init_def tailer_def)
qed

section \<open>The telemetry record\<close>


lemma sint_nonneg_byte:
  fixes b :: byte
  assumes "0 \<le> sint b"
  shows "sint b = uint b"
proof -
  from assms have "\<not> bit b 7"
    by (simp add: sint_uint bit_uint_iff)
  then show ?thesis
    by (auto simp add: bit_eq_iff bit_sint_iff bit_uint_iff dest: bit_imp_le_length)
qed

lemma char_val_nonneg: "0 \<le> char_val schar b \<Longrightarrow> char_val schar b = uint b"
  by (cases schar) (simp_all add: char_val_def sint_nonneg_byte)

lemma frame_counter_int:
  fixes b1 b2 b3 :: byte
  shows "push_bit 16 (uint b1 AND 0x0f) + push_bit 8 (uint b2) + uint b3 =
         push_bit 16 (uint b1 AND 0x0f) OR push_bit 8 (uint b2) OR uint b3"
proof -
  have "push_bit 16 (uint b1 AND 0x0f) + push_bit 8 (uint b2) =
        push_bit 16 (uint b1 AND 0x0f) OR push_bit 8 (uint b2)"
    by (rule disjunctive_add_eq_or) (auto simp add: bit_eq_iff bit_simps dest: bit_imp_le_length)
  moreover have "(push_bit 16 (uint b1 AND 0x0f) OR push_bit 8 (uint b2)) + uint b3 =
        (push_bit 16 (uint b1 AND 0x0f) OR push_bit 8 (uint b2)) OR uint b3"
    by (rule disjunctive_add_eq_or) (auto simp add: bit_eq_iff bit_simps dest: bit_imp_le_length)
  ultimately show ?thesis
    by (simp only: or.assoc)
qed

lemma frame_counter_word:
  fixes b1 b2 b3 :: byte
  shows "(word_of_int (push_bit 16 (uint b1 AND 0x0f) + push_bit 8 (uint b2) + uint b3) :: uint32) =
         push_bit 16 (ucast b1 AND 0x0f) OR push_bit 8 (ucast b2) OR ucast b3"
  by (simp only: frame_counter_int)
    (auto simp add: bit_eq_iff bit_simps dest: bit_imp_le_length)

lemma latchup_word:
  fixes b1 :: byte
  shows "(word_of_int (drop_bit 4 (uint b1 AND 0x30)) :: uint32) = drop_bit 4 (ucast b1 AND 0x30)"
  by (auto simp add: bit_eq_iff bit_simps dest: bit_imp_le_length)

lemma channel_word:
  fixes b6 :: byte
  shows "(word_of_int (drop_bit 2 (uint b6 AND 0x0c)) :: uint32) = drop_bit 2 (ucast b6 AND 0x0c)"
  by (auto simp add: bit_eq_iff bit_simps dest: bit_imp_le_length)

lemma temperature_word:
  fixes b4 b5 :: byte
  shows "(word_of_int (drop_bit 2 (push_bit 2 (uint b4) + drop_bit 6 (uint b5))) :: uint32) =
         drop_bit 2 (push_bit 2 (ucast b4) + drop_bit 6 (ucast b5))"
proof -
  have i: "push_bit 2 (uint b4) + drop_bit 6 (uint b5) = push_bit 2 (uint b4) OR drop_bit 6 (uint b5)"
    by (rule disjunctive_add_eq_or) (auto simp add: bit_eq_iff bit_simps dest: bit_imp_le_length)
  have w: "(push_bit 2 (ucast b4) + drop_bit 6 (ucast b5) :: uint32) =
           push_bit 2 (ucast b4) OR drop_bit 6 (ucast b5)"
    by (rule disjunctive_add_eq_or) (auto simp add: bit_eq_iff bit_simps dest: bit_imp_le_length)
  show ?thesis
    by (simp only: i w) (auto simp add: bit_eq_iff bit_simps dest: bit_imp_le_length)
qed

lemma value_word:
  fixes b6 b7 :: byte
  shows "(word_of_int (push_bit 8 (uint b6 AND 0x03) + uint b7) :: uint32) =
         push_bit 8 (ucast b6 AND 0x03) + ucast b7"
proof -
  have "(word_of_int (push_bit 8 (uint b6 AND 0x03)) :: uint32) = push_bit 8 (ucast b6 AND 0x03)"
    by (auto simp add: bit_eq_iff bit_simps dest: bit_imp_le_length)
  then show ?thesis
    by simp
qed


lemma channel_range: "channel schar b \<in> {0, 1, 2, 3}"
proof -
  define x where "x = char_val schar (b 6) AND 0x0c"
  have "0 \<le> x"
    by (simp add: x_def)
  moreover have "x \<le> 0x0c"
    unfolding x_def by (rule AND_upper2) simp
  ultimately have "0 \<le> x div 4 \<and> x div 4 \<le> 3"
    by auto
  then have "x div 4 \<in> {0, 1, 2, 3}"
    by auto
  then show ?thesis
    by (simp add: channel_def x_def drop_bit_eq_div)
qed

lemma telemetry_i2c:
  "i2c_data (telemetry schar s) =
     (i2c_data s)
       (0 := word_of_int (push_bit 16 (char_val schar (i2c_data_temp s 1) AND 0x0f) +
                push_bit 8 (char_val schar (i2c_data_temp s 2)) +
                char_val schar (i2c_data_temp s 3)),
        1 := word_of_int (drop_bit 4 (char_val schar (i2c_data_temp s 1) AND 0x30)),
        2 := word_of_int (drop_bit 2 (push_bit 2 (char_val schar (i2c_data_temp s 4)) +
                drop_bit 6 (char_val schar (i2c_data_temp s 5)))),
        7 := word_of_int (channel schar (i2c_data_temp s)),
        nat (3 + channel schar (i2c_data_temp s)) := channel_value schar (i2c_data_temp s))"
proof -
  define c where "c = drop_bit 2 (char_val schar (i2c_data_temp s 6) AND 0x0c)"
  have c: "channel schar (i2c_data_temp s) = c"
    by (simp add: channel_def c_def)
  from channel_range [of schar "i2c_data_temp s"]
  consider "c = 0" | "c = 1" | "c = 2" | "c = 3"
    unfolding c by auto
  then show ?thesis
  proof cases
    case 1
    then show ?thesis
      unfolding c telemetry_def Let_def channel_value_def c_def [symmetric] by simp
  next
    case 2
    then show ?thesis
      unfolding c telemetry_def Let_def channel_value_def c_def [symmetric] by simp
  next
    case 3
    then show ?thesis
      unfolding c telemetry_def Let_def channel_value_def c_def [symmetric] by simp
  next
    case 4
    then show ?thesis
      unfolding c telemetry_def Let_def channel_value_def c_def [symmetric] by simp
  qed
qed


lemma telemetry_ch: "ch (telemetry schar s) = channel schar (i2c_data_temp s)"
  by (simp add: telemetry_def Let_def channel_def)

lemma telemetry_stdout:
  "stdout (telemetry schar s) =
     stdout s @ (if channel schar (i2c_data_temp s) = 3 \<and>
                    68 < channel_value schar (i2c_data_temp s)
                 then [channel_value schar (i2c_data_temp s)] else [])"
  by (simp add: telemetry_def Let_def channel_def channel_value_def)

lemma end_of_frame_i2c:
  "i2c_data (end_of_frame schar framadd s) = i2c_data (telemetry schar s)"
  by (simp add: end_of_frame_def Let_def telemetry_i2c split: prod.split)

lemma end_of_frame_ch:
  "ch (end_of_frame schar framadd s) = channel schar (i2c_data_temp s)"
  by (simp add: end_of_frame_def Let_def telemetry_ch split: prod.split)

lemma end_of_frame_stdout:
  "stdout (end_of_frame schar framadd s) =
     stdout s @ (if channel schar (i2c_data_temp s) = 3 \<and>
                    68 < channel_value schar (i2c_data_temp s)
                 then [channel_value schar (i2c_data_temp s)] else [])"
  by (simp add: end_of_frame_def Let_def telemetry_stdout split: prod.split)


lemma channel_unsigned:
  assumes "0 \<le> char_val schar (b 6)"
  shows "channel schar b = uint (drop_bit 2 (ucast (b 6) AND 0x0c) :: uint32)"
proof -
  have range: "channel schar b \<in> {0, 1, 2, 3}"
    by (rule channel_range)
  have "(word_of_int (channel schar b) :: uint32) = drop_bit 2 (ucast (b 6) AND 0x0c)"
    unfolding channel_def char_val_nonneg [OF assms] by (rule channel_word)
  then have "uint (drop_bit 2 (ucast (b 6) AND 0x0c) :: uint32) =
      uint (word_of_int (channel schar b) :: uint32)"
    by simp
  also have "\<dots> = channel schar b"
    using range by (auto simp add: uint_word_of_int)
  finally show ?thesis
    by simp
qed

lemma channel_value_unsigned:
  assumes "0 \<le> char_val schar (b 6)" and "0 \<le> char_val schar (b 7)"
  shows "channel_value schar b = push_bit 8 (ucast (b 6) AND 0x03) + ucast (b 7)"
  unfolding channel_value_def char_val_nonneg [OF assms(1)] char_val_nonneg [OF assms(2)]
  by (rule value_word)

text \<open>
  Where every entry of the staged block is read as a value from 0 to 255 (always so
  when plain \<^verbatim>\<open>char\<close> is unsigned; with a signed plain \<^verbatim>\<open>char\<close>, when no staged byte is
  above 127), the step that completes a frame stores the frame counter, the latch-up
  status, the temperature and the channel identifier given by the shift and mask
  formulas on the unsigned bytes; the channel value goes to the slot \<open>3 + channelId\<close>,
  and no other entry of \<^verbatim>\<open>i2c_data\<close> changes.
\<close>

theorem telemetry_extraction:
  assumes "i < length buf" and "counter s \<noteq> 0" and "odd_flag s \<noteq> 1"
    and "pdata s + push_bit 8 (ucast (buf ! i)) = tailer" and "tsign s \<noteq> 0"
    and "\<forall>m<8. 0 \<le> char_val schar (i2c_data_temp s m)"
  shows "\<exists>t. step schar buf framadd i s = Inr t \<and>
           (let b = (\<lambda>m. ucast (i2c_data_temp s m) :: uint32);
                chan = drop_bit 2 (b 6 AND 0x0C)
            in i2c_data t 0 = (push_bit 16 (b 1 AND 0x0F) OR push_bit 8 (b 2) OR b 3) \<and>
               i2c_data t 1 = drop_bit 4 (b 1 AND 0x30) \<and>
               i2c_data t 2 = drop_bit 2 (push_bit 2 (b 4) + drop_bit 6 (b 5)) \<and>
               i2c_data t 7 = chan \<and> ch t = uint chan \<and> chan \<le> 3 \<and>
               i2c_data t (3 + unat chan) = push_bit 8 (b 6 AND 0x03) + b 7 \<and>
               (\<forall>k. k \<noteq> 0 \<and> k \<noteq> 1 \<and> k \<noteq> 2 \<and> k \<noteq> 7 \<and> k \<noteq> 3 + unat chan \<longrightarrow>
                    i2c_data t k = i2c_data s k))"
proof -
  define b where "b = (\<lambda>m. ucast (i2c_data_temp s m) :: uint32)"
  define chan where "chan = drop_bit 2 (b 6 AND 0x0C)"
  define s' where "s' = s\<lparr>w := buf ! i, w4 := w3 s, w3 := w2 s, w2 := w1 s, w1 := buf ! i,
         pdata := tailer, odd_flag := 1, pdata_pre2 := pdata_pre1 s, pdata_pre1 := tailer,
         counter := counter s + 1\<rparr>"
  define t where "t = end_of_frame schar framadd s'"
  have run: "step schar buf framadd i s = Inr t"
    using assms(1-5) by (simp add: step_defs t_def s'_def)
  have val: "char_val schar (i2c_data_temp s m) = uint (i2c_data_temp s m)" if "m < 8" for m
    using assms(6) that by (simp add: char_val_nonneg)
  have c: "channel schar (i2c_data_temp s) = uint chan"
    using assms(6) by (simp add: channel_unsigned chan_def b_def)
  have range: "uint chan \<in> {0, 1, 2, 3}"
    using channel_range [of schar "i2c_data_temp s"] by (simp only: c)
  have ule: "0 \<le> uint chan" "uint chan \<le> 3"
    using range by auto
  have urange: "unat chan \<le> 3"
  proof -
    have "int (unat chan) \<le> 3"
      using ule by simp
    then show ?thesis
      by linarith
  qed
  have slot: "nat (3 + uint chan) = 3 + unat chan"
  proof -
    have "int (3 + unat chan) = 3 + uint chan"
      by simp
    then show ?thesis
      by linarith
  qed
  have v: "channel_value schar (i2c_data_temp s) = push_bit 8 (b 6 AND 0x03) + b 7"
    using assms(6) by (simp add: channel_value_unsigned b_def)
  have rec: "i2c_data t =
     (i2c_data s)
       (0 := push_bit 16 (b 1 AND 0x0F) OR push_bit 8 (b 2) OR b 3,
        1 := drop_bit 4 (b 1 AND 0x30),
        2 := drop_bit 2 (push_bit 2 (b 4) + drop_bit 6 (b 5)),
        7 := chan,
        3 + unat chan := push_bit 8 (b 6 AND 0x03) + b 7)"
  proof -
    have same: "i2c_data_temp s' = i2c_data_temp s" "i2c_data s' = i2c_data s"
      by (simp_all add: s'_def)
    have vals: "char_val schar (i2c_data_temp s 1) = uint (i2c_data_temp s 1)"
      "char_val schar (i2c_data_temp s 2) = uint (i2c_data_temp s 2)"
      "char_val schar (i2c_data_temp s 3) = uint (i2c_data_temp s 3)"
      "char_val schar (i2c_data_temp s 4) = uint (i2c_data_temp s 4)"
      "char_val schar (i2c_data_temp s 5) = uint (i2c_data_temp s 5)"
      by (simp_all add: val)
    show ?thesis
      unfolding t_def end_of_frame_i2c telemetry_i2c same vals c v slot
        frame_counter_word latchup_word temperature_word word_of_int_uint b_def
      by (rule refl)
  qed
  have le: "chan \<le> 3"
    using ule by (simp add: word_le_def)
  have slots: "3 + unat chan \<noteq> 0" "3 + unat chan \<noteq> 1" "3 + unat chan \<noteq> 2" "3 + unat chan \<noteq> 7"
    using urange by simp_all
  have "i2c_data t 0 = (push_bit 16 (b 1 AND 0x0F) OR push_bit 8 (b 2) OR b 3) \<and>
        i2c_data t 1 = drop_bit 4 (b 1 AND 0x30) \<and>
        i2c_data t 2 = drop_bit 2 (push_bit 2 (b 4) + drop_bit 6 (b 5)) \<and>
        i2c_data t 7 = chan \<and> ch t = uint chan \<and> chan \<le> 3 \<and>
        i2c_data t (3 + unat chan) = push_bit 8 (b 6 AND 0x03) + b 7 \<and>
        (\<forall>k. k \<noteq> 0 \<and> k \<noteq> 1 \<and> k \<noteq> 2 \<and> k \<noteq> 7 \<and> k \<noteq> 3 + unat chan \<longrightarrow>
             i2c_data t k = i2c_data s k)"
    using slots le by (simp add: rec) (simp add: t_def end_of_frame_ch s'_def c)
  with run show ?thesis
    unfolding Let_def b_def [symmetric] chan_def [symmetric] by blast
qed


theorem telemetry_extraction_witness:
  "(\<exists>t. step True [0x00, 0x56] 5 (0 + 1)
          (blank\<lparr>counter := 9, tsign := 1, pdata := 0x78,
                 i2c_data_temp := (\<lambda>m. [0x00, 0x01, 0x02, 0x03, 0x04, 0x05, 0x0A, 0x0B] ! m)\<rparr>) = Inr t \<and>
        i2c_data t 0 = 0x10203 \<and> i2c_data t 1 = 0 \<and> i2c_data t 2 = 4 \<and>
        i2c_data t 7 = 2 \<and> ch t = 2 \<and> i2c_data t 5 = 0x20B \<and>
        i2c_data t 3 = 0 \<and> i2c_data t 4 = 0 \<and> i2c_data t 6 = 0) \<and>
   (\<exists>t. step False [0x00, 0x56] 5 (0 + 1)
          (blank\<lparr>counter := 9, tsign := 1, pdata := 0x78,
                 i2c_data_temp := (\<lambda>m. [0x00, 0xFF, 0xFE, 0xFD, 0xFC, 0xFB, 0xFA, 0xF9] ! m)\<rparr>) = Inr t \<and>
        i2c_data t 0 = 0x0FFEFD \<and> i2c_data t 1 = 3 \<and> i2c_data t 2 = 0xFC \<and>
        i2c_data t 7 = 2 \<and> ch t = 2 \<and> i2c_data t 5 = 0x2F9 \<and>
        i2c_data t 3 = 0 \<and> i2c_data t 4 = 0 \<and> i2c_data t 6 = 0)"
proof -
  have low: "\<forall>m<8. 0 \<le> char_val True
      (i2c_data_temp (blank\<lparr>counter := 9, tsign := 1, pdata := 0x78,
         i2c_data_temp := (\<lambda>m. [0x00, 0x01, 0x02, 0x03, 0x04, 0x05, 0x0A, 0x0B] ! m)\<rparr>) m)"
    by (simp add: char_val_def All_less_Suc eval_nat_numeral)
  have high: "\<forall>m<8. 0 \<le> char_val False
      (i2c_data_temp (blank\<lparr>counter := 9, tsign := 1, pdata := 0x78,
         i2c_data_temp := (\<lambda>m. [0x00, 0xFF, 0xFE, 0xFD, 0xFC, 0xFB, 0xFA, 0xF9] ! m)\<rparr>) m)"
    by (simp add: char_val_def)
  show ?thesis
    using telemetry_extraction [of "0 + 1" "[0x00, 0x56]"
        "blank\<lparr>counter := 9, tsign := 1, pdata := 0x78,
               i2c_data_temp := (\<lambda>m. [0x00, 0x01, 0x02, 0x03, 0x04, 0x05, 0x0A, 0x0B] ! m)\<rparr>"
        True 5, OF _ _ _ _ _ low]
      telemetry_extraction [of "0 + 1" "[0x00, 0x56]"
        "blank\<lparr>counter := 9, tsign := 1, pdata := 0x78,
               i2c_data_temp := (\<lambda>m. [0x00, 0xFF, 0xFE, 0xFD, 0xFC, 0xFB, 0xFA, 0xF9] ! m)\<rparr>"
        False 5, OF _ _ _ _ _ high]
    by (auto simp add: blank_def init_def tailer_def Let_def)
qed


section \<open>Frame completion in closed form\<close>


lemma telemetry_eq:
  "telemetry schar s =
     s\<lparr>i2c_data := i2c_data (telemetry schar s),
       ch := channel schar (i2c_data_temp s),
       stdout := stdout s @ advisory schar (i2c_data_temp s)\<rparr>"
proof -
  define c where "c = drop_bit 2 (char_val schar (i2c_data_temp s 6) AND 0x0c)"
  have c: "channel schar (i2c_data_temp s) = c"
    by (simp add: channel_def c_def)
  from channel_range [of schar "i2c_data_temp s"]
  consider "c = 0" | "c = 1" | "c = 2" | "c = 3"
    unfolding c by auto
  then show ?thesis
  proof cases
    case 1
    then show ?thesis
      unfolding advisory_def c telemetry_def Let_def channel_value_def c_def [symmetric] by simp
  next
    case 2
    then show ?thesis
      unfolding advisory_def c telemetry_def Let_def channel_value_def c_def [symmetric] by simp
  next
    case 3
    then show ?thesis
      unfolding advisory_def c telemetry_def Let_def channel_value_def c_def [symmetric] by simp
  next
    case 4
    then show ?thesis
      unfolding advisory_def c telemetry_def Let_def channel_value_def c_def [symmetric] by simp
  qed
qed


lemma end_of_frame_eq:
  "end_of_frame schar framadd s =
     s\<lparr>counter := 0, tsign := 0,
       fcounter := (if fcounter s + 1 = framadd then 0 else fcounter s + 1),
       i2c_data := i2c_data (telemetry schar s),
       ch := channel schar (i2c_data_temp s),
       stdout := stdout s @ advisory schar (i2c_data_temp s),
       maps := (if fcounter s + 1 = framadd
                then (\<lambda>k. if k < ncells then maps_temp s k else maps s k) else maps s),
       maps_temp := (if fcounter s + 1 = framadd
                then (\<lambda>k. if k < ncells then 0 else maps_temp s k) else maps_temp s)\<rparr>"
proof -
  define u where "u = s\<lparr>counter := 0, tsign := 0, fcounter := fcounter s + 1\<rparr>"
  have tel: "telemetry schar u =
     u\<lparr>i2c_data := i2c_data (telemetry schar s),
       ch := channel schar (i2c_data_temp s),
       stdout := stdout s @ advisory schar (i2c_data_temp s)\<rparr>"
    by (subst telemetry_eq) (simp add: u_def telemetry_i2c)
  have "end_of_frame schar framadd s =
      (if fcounter s + 1 = framadd
       then (telemetry schar u)\<lparr>fcounter := 0,
              maps := (\<lambda>k. if k < ncells then maps_temp s k else maps s k),
              maps_temp := (\<lambda>k. if k < ncells then 0 else maps_temp s k)\<rparr>
       else telemetry schar u)"
    by (simp add: end_of_frame_def Let_def u_def [symmetric] commit_eq)
      (simp add: u_def)
  then show ?thesis
    unfolding tel by (simp add: u_def)
qed


lemma end_of_frame_stdout_free:
  "end_of_frame schar framadd (s\<lparr>stdout := out\<rparr>) =
     (end_of_frame schar framadd s)\<lparr>stdout := out @ advisory schar (i2c_data_temp s)\<rparr>"
  by (simp add: end_of_frame_eq telemetry_i2c cong: if_cong)

lemma coordinate_stdout_free:
  "coordinate (s\<lparr>stdout := out\<rparr>) =
     (case coordinate s of Inl e \<Rightarrow> Inl e | Inr t \<Rightarrow> Inr (t\<lparr>stdout := out\<rparr>))"
proof (cases "pdata_pre2 s AND 0x1000 \<noteq> 0")
  case True
  then show ?thesis
    by (simp add: coordinate_def)
next
  case False
  define c where "c = uint (drop_bit 2 (pdata_pre2 s) AND 0x03ff)"
  define d where "d = uint (pdata_pre2 s AND 0x0003)"
  show ?thesis
  proof (cases "c + d < 960 \<and> row s < 928")
    case True
    with False bump_cases [of "row s * 960 + c" "[0..<nat (d + 1)]" "maps_temp s"]
    show ?thesis
      unfolding coordinate_def Let_def by (auto simp add: c_def d_def)
  next
    case no: False
    with False show ?thesis
      unfolding coordinate_def Let_def by (auto simp add: c_def d_def)
  qed
qed


lemma stdout_last:
  "(s\<lparr>stdout := out\<rparr>)\<lparr>w := x0\<rparr> = (s\<lparr>w := x0\<rparr>)\<lparr>stdout := out\<rparr>"
  "(s\<lparr>stdout := out\<rparr>)\<lparr>w1 := x1\<rparr> = (s\<lparr>w1 := x1\<rparr>)\<lparr>stdout := out\<rparr>"
  "(s\<lparr>stdout := out\<rparr>)\<lparr>w2 := x2\<rparr> = (s\<lparr>w2 := x2\<rparr>)\<lparr>stdout := out\<rparr>"
  "(s\<lparr>stdout := out\<rparr>)\<lparr>w3 := x3\<rparr> = (s\<lparr>w3 := x3\<rparr>)\<lparr>stdout := out\<rparr>"
  "(s\<lparr>stdout := out\<rparr>)\<lparr>w4 := x4\<rparr> = (s\<lparr>w4 := x4\<rparr>)\<lparr>stdout := out\<rparr>"
  "(s\<lparr>stdout := out\<rparr>)\<lparr>pdata_pre2 := x5\<rparr> = (s\<lparr>pdata_pre2 := x5\<rparr>)\<lparr>stdout := out\<rparr>"
  "(s\<lparr>stdout := out\<rparr>)\<lparr>pdata_pre1 := x6\<rparr> = (s\<lparr>pdata_pre1 := x6\<rparr>)\<lparr>stdout := out\<rparr>"
  "(s\<lparr>stdout := out\<rparr>)\<lparr>pdata := x7\<rparr> = (s\<lparr>pdata := x7\<rparr>)\<lparr>stdout := out\<rparr>"
  "(s\<lparr>stdout := out\<rparr>)\<lparr>counter := x8\<rparr> = (s\<lparr>counter := x8\<rparr>)\<lparr>stdout := out\<rparr>"
  "(s\<lparr>stdout := out\<rparr>)\<lparr>odd_flag := x9\<rparr> = (s\<lparr>odd_flag := x9\<rparr>)\<lparr>stdout := out\<rparr>"
  "(s\<lparr>stdout := out\<rparr>)\<lparr>row := x10\<rparr> = (s\<lparr>row := x10\<rparr>)\<lparr>stdout := out\<rparr>"
  "(s\<lparr>stdout := out\<rparr>)\<lparr>column := x11\<rparr> = (s\<lparr>column := x11\<rparr>)\<lparr>stdout := out\<rparr>"
  "(s\<lparr>stdout := out\<rparr>)\<lparr>code := x12\<rparr> = (s\<lparr>code := x12\<rparr>)\<lparr>stdout := out\<rparr>"
  "(s\<lparr>stdout := out\<rparr>)\<lparr>tsign := x13\<rparr> = (s\<lparr>tsign := x13\<rparr>)\<lparr>stdout := out\<rparr>"
  "(s\<lparr>stdout := out\<rparr>)\<lparr>ch := x14\<rparr> = (s\<lparr>ch := x14\<rparr>)\<lparr>stdout := out\<rparr>"
  "(s\<lparr>stdout := out\<rparr>)\<lparr>i2c_data_temp := x15\<rparr> = (s\<lparr>i2c_data_temp := x15\<rparr>)\<lparr>stdout := out\<rparr>"
  "(s\<lparr>stdout := out\<rparr>)\<lparr>maps := x16\<rparr> = (s\<lparr>maps := x16\<rparr>)\<lparr>stdout := out\<rparr>"
  "(s\<lparr>stdout := out\<rparr>)\<lparr>maps_temp := x17\<rparr> = (s\<lparr>maps_temp := x17\<rparr>)\<lparr>stdout := out\<rparr>"
  "(s\<lparr>stdout := out\<rparr>)\<lparr>i2c_data := x18\<rparr> = (s\<lparr>i2c_data := x18\<rparr>)\<lparr>stdout := out\<rparr>"
  "(s\<lparr>stdout := out\<rparr>)\<lparr>fcounter := x19\<rparr> = (s\<lparr>fcounter := x19\<rparr>)\<lparr>stdout := out\<rparr>"
  by (cases s; simp)+

lemma seek_stdout_free:
  "seek buf i (s\<lparr>stdout := out\<rparr>) =
     (case seek buf i s of Inl e \<Rightarrow> Inl e | Inr t \<Rightarrow> Inr (t\<lparr>stdout := out\<rparr>))"
  using stage_cases [of buf i "[0..<8]" "i2c_data_temp s"]
  unfolding seek_def Let_def by (cases "w1 s = 0xaa \<and> w2 s = 0xaa \<and> w3 s = 0xaa \<and> w4 s = 0xaa") auto

lemma step_stdout_free:
  "step schar buf framadd i (s\<lparr>stdout := out\<rparr>) =
     (case step schar buf framadd i s of
        Inl e \<Rightarrow> Inl e
      | Inr t \<Rightarrow> Inr (t\<lparr>stdout := out @ drop (length (stdout s)) (stdout t)\<rparr>))"
proof -
  define u where "u = s\<lparr>w := buf ! i, w4 := w3 s, w3 := w2 s, w2 := w1 s, w1 := buf ! i\<rparr>"
  define v where "v = u\<lparr>pdata := pdata s + push_bit 8 (ucast (buf ! i)), odd_flag := 1,
      pdata_pre2 := pdata_pre1 s, pdata_pre1 := pdata s + push_bit 8 (ucast (buf ! i)),
      counter := counter s + 1\<rparr>"
  consider (past) "\<not> i < length buf"
    | (seeking) "i < length buf" "counter s = 0"
    | (low) "i < length buf" "counter s \<noteq> 0" "odd_flag s = 1"
    | (first) "i < length buf" "counter s \<noteq> 0" "odd_flag s \<noteq> 1"
        "pdata s + push_bit 8 (ucast (buf ! i)) = tailer" "tsign s = 0"
    | (second) "i < length buf" "counter s \<noteq> 0" "odd_flag s \<noteq> 1"
        "pdata s + push_bit 8 (ucast (buf ! i)) = tailer" "tsign s \<noteq> 0"
    | (early) "i < length buf" "counter s \<noteq> 0" "odd_flag s \<noteq> 1"
        "pdata s + push_bit 8 (ucast (buf ! i)) \<noteq> tailer" "\<not> 6 < counter s + 1"
    | (coord) "i < length buf" "counter s \<noteq> 0" "odd_flag s \<noteq> 1"
        "pdata s + push_bit 8 (ucast (buf ! i)) \<noteq> tailer" "6 < counter s + 1"
    by blast
  then show ?thesis
  proof cases
    case past
    then show ?thesis
      by (simp add: step_def rd_def)
  next
    case seeking
    have "step schar buf framadd i s = seek buf i u"
      using seeking by (simp add: step_def rd_def Let_def u_def)
    moreover have "step schar buf framadd i (s\<lparr>stdout := out\<rparr>) = seek buf i (u\<lparr>stdout := out\<rparr>)"
    proof -
      have "u\<lparr>stdout := out\<rparr> =
          (s\<lparr>stdout := out\<rparr>)\<lparr>w := buf ! i, w4 := w3 s, w3 := w2 s, w2 := w1 s, w1 := buf ! i\<rparr>"
        by (cases s) (simp add: u_def)
      with seeking show ?thesis
        by (simp add: step_def rd_def Let_def)
    qed
    moreover have "seek buf i u = Inr t \<Longrightarrow> stdout t = stdout s" for t
      using stage_cases [of buf i "[0..<8]" "i2c_data_temp u"]
      by (auto simp add: seek_def Let_def u_def split: if_splits)
    ultimately show ?thesis
      by (auto simp add: seek_stdout_free split: sum.split)
  next
    case low
    then show ?thesis
      by (simp add: step_defs)
  next
    case first
    then show ?thesis
      by (simp add: step_defs)
  next
    case second
    define z where "z = s\<lparr>w := buf ! i, w4 := w3 s, w3 := w2 s, w2 := w1 s, w1 := buf ! i,
        pdata := tailer, odd_flag := 1, pdata_pre2 := pdata_pre1 s, pdata_pre1 := tailer,
        counter := counter s + 1\<rparr>"
    have "step schar buf framadd i s = Inr (end_of_frame schar framadd z)"
      using second by (simp add: step_defs z_def)
    moreover have "step schar buf framadd i (s\<lparr>stdout := out\<rparr>) =
        Inr (end_of_frame schar framadd (z\<lparr>stdout := out\<rparr>))"
    proof -
      have "z\<lparr>stdout := out\<rparr> =
          (s\<lparr>stdout := out\<rparr>)\<lparr>w := buf ! i, w4 := w3 s, w3 := w2 s, w2 := w1 s,
            w1 := buf ! i, pdata := tailer, odd_flag := 1, pdata_pre2 := pdata_pre1 s,
            pdata_pre1 := tailer, counter := counter s + 1\<rparr>"
        by (cases s) (simp add: z_def)
      with second show ?thesis
        by (simp add: step_defs)
    qed
    moreover have "stdout (end_of_frame schar framadd z) =
        stdout s @ advisory schar (i2c_data_temp z)"
      by (simp add: end_of_frame_stdout advisory_def) (simp add: z_def)
    ultimately show ?thesis
      by (simp add: end_of_frame_stdout_free)
  next
    case early
    then show ?thesis
      by (simp add: step_defs)
  next
    case coord
    have "step schar buf framadd i s = coordinate (v\<lparr>tsign := 0\<rparr>)"
      using coord by (simp add: step_defs u_def v_def)
    moreover have "step schar buf framadd i (s\<lparr>stdout := out\<rparr>) =
        coordinate (v\<lparr>tsign := 0, stdout := out\<rparr>)"
      using coord by (simp add: step_defs u_def v_def stdout_last)
    moreover have "coordinate (v\<lparr>tsign := 0\<rparr>) = Inr t \<Longrightarrow> stdout t = stdout s" for t
      using bump_cases [of "row v * 960 + uint (drop_bit 2 (pdata_pre2 v) AND 0x03ff)"
          "[0..<nat (uint (pdata_pre2 v AND 0x0003) + 1)]" "maps_temp v"]
      by (auto simp add: coordinate_def Let_def u_def v_def split: if_splits)
    ultimately show ?thesis
      by (auto simp add: coordinate_stdout_free split: sum.split)
  qed
qed


lemma step_stdout_grows:
  assumes "step schar buf framadd i s = Inr t"
  shows "stdout t = stdout s @ drop (length (stdout s)) (stdout t)"
proof -
  have "s\<lparr>stdout := stdout s\<rparr> = s"
    by simp
  then have "step schar buf framadd i (s\<lparr>stdout := stdout s\<rparr>) = Inr t"
    using assms by simp
  then have "t\<lparr>stdout := stdout s @ drop (length (stdout s)) (stdout t)\<rparr> = t"
    unfolding step_stdout_free assms by simp
  then have "stdout (t\<lparr>stdout := stdout s @ drop (length (stdout s)) (stdout t)\<rparr>) = stdout t"
    by (rule arg_cong)
  then show ?thesis
    by simp
qed

lemma scan_stdout_grows:
  assumes "scan schar buf framadd ix s = Inr t"
  shows "\<exists>a. stdout t = stdout s @ a"
  using assms
proof (induction ix arbitrary: s)
  case Nil
  then show ?case
    by simp
next
  case (Cons i ix)
  then obtain u where u: "step schar buf framadd i s = Inr u" "scan schar buf framadd ix u = Inr t"
    by (auto split: sum.splits)
  from Cons.IH [OF u(2)] obtain a where "stdout t = stdout u @ a"
    by blast
  with step_stdout_grows [OF u(1)] show ?case
    by (metis append.assoc)
qed

lemma scan_stdout_shift:
  "scan schar buf framadd ix (s\<lparr>stdout := out\<rparr>) =
     (case scan schar buf framadd ix s of
        Inl e \<Rightarrow> Inl e
      | Inr t \<Rightarrow> Inr (t\<lparr>stdout := out @ drop (length (stdout s)) (stdout t)\<rparr>))"
proof (induction ix arbitrary: s out)
  case Nil
  show ?case
    by simp
next
  case (Cons i ix)
  show ?case
  proof (cases "step schar buf framadd i s")
    case (Inl e)
    then show ?thesis
      by (simp add: step_stdout_free)
  next
    case (Inr u)
    show ?thesis
    proof (cases "scan schar buf framadd ix u")
      case (Inl e)
      with Inr show ?thesis
        by (simp add: step_stdout_free Cons.IH)
    next
      case fin: (Inr t)
      obtain a where a: "stdout u = stdout s @ a"
        using step_stdout_grows [OF Inr] by blast
      obtain b where b: "stdout t = stdout u @ b"
        using scan_stdout_grows [OF fin] by blast
      from Inr fin a b show ?thesis
        by (simp add: step_stdout_free Cons.IH)
    qed
  qed
qed

section \<open>The overcurrent advisory\<close>

text \<open>
  C8.  At the step that completes a frame the value is printed exactly when the channel
  identifier is 3 and the channel value stored in \<^verbatim>\<open>i2c_data[6]\<close> exceeds 68 (an unsigned
  comparison).  The step never fails.  Printed values apart, the state it leaves is the
  one written out below, in which the comparison with 68 does not occur: the scanner
  is seeking again; the frame counter, the record and the two maps are as after any
  completed frame; the byte history, the word history and the pending row, column and
  code are kept.  The loop then goes on with the rest of the buffer: for every list of
  further indices, the run that starts before the step fails with the same error, or
  ends in the same state, as the run over those indices from the state with nothing
  printed, and its output is what had been printed before, then the advisory if there
  is one, then what the rest of the run prints.
\<close>

theorem overcurrent_advisory:
  assumes "i < length buf" and "counter s \<noteq> 0" and "odd_flag s \<noteq> 1"
    and "pdata s + push_bit 8 (ucast (buf ! i)) = tailer" and "tsign s \<noteq> 0"
  shows "\<exists>t. step schar buf framadd i s = Inr t \<and> counter t = 0 \<and> tsign t = 0 \<and>
           ch t = channel schar (i2c_data_temp s) \<and>
           (if channel schar (i2c_data_temp s) = 3
            then i2c_data t 6 = channel_value schar (i2c_data_temp s) \<and>
                 stdout t = stdout s @
                   (if 68 < channel_value schar (i2c_data_temp s)
                    then [channel_value schar (i2c_data_temp s)] else [])
            else stdout t = stdout s) \<and>
           t\<lparr>stdout := stdout s\<rparr> =
             s\<lparr>w := buf ! i, w4 := w3 s, w3 := w2 s, w2 := w1 s, w1 := buf ! i,
               pdata := tailer, odd_flag := 1, pdata_pre2 := pdata_pre1 s, pdata_pre1 := tailer,
               counter := 0, tsign := 0,
               fcounter := (if fcounter s + 1 = framadd then 0 else fcounter s + 1),
               i2c_data := (i2c_data s)
                 (0 := word_of_int (push_bit 16 (char_val schar (i2c_data_temp s 1) AND 0x0f) +
                          push_bit 8 (char_val schar (i2c_data_temp s 2)) +
                          char_val schar (i2c_data_temp s 3)),
                  1 := word_of_int (drop_bit 4 (char_val schar (i2c_data_temp s 1) AND 0x30)),
                  2 := word_of_int (drop_bit 2 (push_bit 2 (char_val schar (i2c_data_temp s 4)) +
                          drop_bit 6 (char_val schar (i2c_data_temp s 5)))),
                  7 := word_of_int (channel schar (i2c_data_temp s)),
                  nat (3 + channel schar (i2c_data_temp s)) :=
                    channel_value schar (i2c_data_temp s)),
               ch := channel schar (i2c_data_temp s),
               maps := (if fcounter s + 1 = framadd
                        then (\<lambda>k. if k < ncells then maps_temp s k else maps s k) else maps s),
               maps_temp := (if fcounter s + 1 = framadd
                        then (\<lambda>k. if k < ncells then 0 else maps_temp s k) else maps_temp s)\<rparr> \<and>
           (\<forall>ix. scan schar buf framadd (i # ix) s =
                 (case scan schar buf framadd ix (t\<lparr>stdout := stdout s\<rparr>) of
                    Inl e \<Rightarrow> Inl e
                  | Inr u \<Rightarrow> Inr (u\<lparr>stdout := stdout t @ drop (length (stdout s)) (stdout u)\<rparr>)))"
proof -
  define z where "z = s\<lparr>w := buf ! i, w4 := w3 s, w3 := w2 s, w2 := w1 s, w1 := buf ! i,
      pdata := tailer, odd_flag := 1, pdata_pre2 := pdata_pre1 s, pdata_pre1 := tailer,
      counter := counter s + 1\<rparr>"
  define t where "t = end_of_frame schar framadd z"
  have run: "step schar buf framadd i s = Inr t"
    using assms by (simp add: step_defs z_def t_def)
  have z: "i2c_data_temp z = i2c_data_temp s" "stdout z = stdout s" "i2c_data z = i2c_data s"
      "fcounter z = fcounter s" "maps z = maps s" "maps_temp z = maps_temp s"
    by (simp_all add: z_def)
  have "counter t = 0" "tsign t = 0" "ch t = channel schar (i2c_data_temp s)"
    by (simp_all add: t_def end_of_frame_ch z)
  moreover have "i2c_data t 6 = channel_value schar (i2c_data_temp s)"
    if "channel schar (i2c_data_temp s) = 3"
    using that by (simp add: t_def end_of_frame_i2c telemetry_i2c z)
  moreover have out: "stdout t = stdout s @
      (if channel schar (i2c_data_temp s) = 3 \<and> 68 < channel_value schar (i2c_data_temp s)
       then [channel_value schar (i2c_data_temp s)] else [])"
    by (simp add: t_def end_of_frame_stdout z)
  moreover have quiet: "t\<lparr>stdout := stdout s\<rparr> =
             s\<lparr>w := buf ! i, w4 := w3 s, w3 := w2 s, w2 := w1 s, w1 := buf ! i,
               pdata := tailer, odd_flag := 1, pdata_pre2 := pdata_pre1 s, pdata_pre1 := tailer,
               counter := 0, tsign := 0,
               fcounter := (if fcounter s + 1 = framadd then 0 else fcounter s + 1),
               i2c_data := (i2c_data s)
                 (0 := word_of_int (push_bit 16 (char_val schar (i2c_data_temp s 1) AND 0x0f) +
                          push_bit 8 (char_val schar (i2c_data_temp s 2)) +
                          char_val schar (i2c_data_temp s 3)),
                  1 := word_of_int (drop_bit 4 (char_val schar (i2c_data_temp s 1) AND 0x30)),
                  2 := word_of_int (drop_bit 2 (push_bit 2 (char_val schar (i2c_data_temp s 4)) +
                          drop_bit 6 (char_val schar (i2c_data_temp s 5)))),
                  7 := word_of_int (channel schar (i2c_data_temp s)),
                  nat (3 + channel schar (i2c_data_temp s)) :=
                    channel_value schar (i2c_data_temp s)),
               ch := channel schar (i2c_data_temp s),
               maps := (if fcounter s + 1 = framadd
                        then (\<lambda>k. if k < ncells then maps_temp s k else maps s k) else maps s),
               maps_temp := (if fcounter s + 1 = framadd
                        then (\<lambda>k. if k < ncells then 0 else maps_temp s k) else maps_temp s)\<rparr>"
    unfolding t_def end_of_frame_eq telemetry_i2c z
    by (cases s) (simp add: z_def)
  moreover have "scan schar buf framadd (i # ix) s =
      (case scan schar buf framadd ix (t\<lparr>stdout := stdout s\<rparr>) of
         Inl e \<Rightarrow> Inl e
       | Inr u \<Rightarrow> Inr (u\<lparr>stdout := stdout t @ drop (length (stdout s)) (stdout u)\<rparr>))" for ix
    using scan_stdout_shift [where s = "t\<lparr>stdout := stdout s\<rparr>" and out = "stdout t"
        and schar = schar and buf = buf and framadd = framadd and ix = ix] run
    by (simp split: sum.split)
  ultimately show ?thesis
    using run by auto
qed

theorem overcurrent_advisory_witness:
  "(\<exists>u. scan True
          [0x00, 0x56, 0xaa, 0xaa, 0xaa, 0xaa, 0, 0, 0, 0, 0, 0, 0, 0, 0x08, 0x00, 0x00, 0x00]
          5 (1 # [2..<18])
          (blank\<lparr>counter := 9, tsign := 1, pdata := 0x78,
                 i2c_data_temp := (\<lambda>m. if m = 6 then 0x0c else if m = 7 then 70 else 0)\<rparr>) = Inr u \<and>
        stdout u = [70] \<and> i2c_data u 6 = 70 \<and> ch u = 3 \<and> fcounter u = 1 \<and>
        counter u = 7 \<and> column u = 2 \<and> maps_temp u 2 = 1) \<and>
   (\<exists>u. scan True
          [0x00, 0x56, 0xaa, 0xaa, 0xaa, 0xaa, 0, 0, 0, 0, 0, 0, 0, 0, 0x08, 0x00, 0x00, 0x00]
          5 (1 # [2..<18])
          (blank\<lparr>counter := 9, tsign := 1, pdata := 0x78,
                 i2c_data_temp := (\<lambda>m. if m = 6 then 0x0c else if m = 7 then 60 else 0)\<rparr>) = Inr u \<and>
        stdout u = [] \<and> i2c_data u 6 = 60 \<and> ch u = 3 \<and> fcounter u = 1 \<and>
        counter u = 7 \<and> column u = 2 \<and> maps_temp u 2 = 1)"
  using overcurrent_advisory [of 1
        "[0x00, 0x56, 0xaa, 0xaa, 0xaa, 0xaa, 0, 0, 0, 0, 0, 0, 0, 0, 0x08, 0x00, 0x00, 0x00]"
        "blank\<lparr>counter := 9, tsign := 1, pdata := 0x78,
               i2c_data_temp := (\<lambda>m. if m = 6 then 0x0c else if m = 7 then 70 else 0)\<rparr>" True 5]
    overcurrent_advisory [of 1
        "[0x00, 0x56, 0xaa, 0xaa, 0xaa, 0xaa, 0, 0, 0, 0, 0, 0, 0, 0, 0x08, 0x00, 0x00, 0x00]"
        "blank\<lparr>counter := 9, tsign := 1, pdata := 0x78,
               i2c_data_temp := (\<lambda>m. if m = 6 then 0x0c else if m = 7 then 60 else 0)\<rparr>" True 5]
  by (simp add: blank_def init_def step_defs seek_def datanum_def tailer_def upt_conv_Cons
      coordinate_eq hit_def end_of_frame_eq telemetry_i2c advisory_def channel_def
      channel_value_def char_val_def)


section \<open>Staging the telemetry block\<close>

lemma scan_append:
  "scan schar buf framadd (xs @ ys) s =
     (case scan schar buf framadd xs s of
        Inl e \<Rightarrow> Inl e
      | Inr t \<Rightarrow> scan schar buf framadd ys t)"
  by (induction xs arbitrary: s) (simp_all split: sum.split)

lemma stage_within:
  assumes "\<forall>m\<in>set ms. i + m + 1 < length buf"
  shows "\<exists>u. stage buf i ms t = Inr u"
  using assms by (induction ms arbitrary: t) (simp_all add: rd_def)

lemma stage_past_end:
  assumes "length buf = datanum * 4" and "i + a < datanum * 4" and "datanum * 4 \<le> i + b"
  shows "stage buf i [a..<b] t = Inl (ReadPastEnd (datanum * 4))"
  using assms(2,3)
proof (induction "b - a" arbitrary: a t)
  case 0
  then show ?case
    by simp
next
  case (Suc n)
  then have ab: "a < b"
    by simp
  show ?case
  proof (cases "i + a + 1 < datanum * 4")
    case True
    with Suc.prems have "Suc a < b"
      by simp
    moreover have "stage buf i [Suc a..<b] (t(a := buf ! (i + a + 1))) =
        Inl (ReadPastEnd (datanum * 4))"
      using Suc.hyps(2) Suc.prems True by (intro Suc.hyps(1)) simp_all
    ultimately show ?thesis
      using ab True Suc.prems assms(1) by (simp add: upt_conv_Cons rd_def)
  next
    case False
    with Suc.prems have "i + a + 1 = datanum * 4"
      by simp
    then show ?thesis
      using ab Suc.prems assms(1) by (simp add: upt_conv_Cons rd_def)
  qed
qed

lemma seek_past_end:
  assumes "length buf = datanum * 4" and "datanum * 4 \<le> i + 8" and "i < datanum * 4"
  shows "seek buf i s = Inl (ReadPastEnd (datanum * 4))"
  using stage_past_end [of buf i 0 8] assms by (simp add: seek_def Let_def)

lemma marker_at_end_reads_past_end:
  assumes "length buf = datanum * 4" and "datanum * 4 \<le> i + 8" and "i < datanum * 4"
    and "counter s = 0"
    and "buf ! i = 0xaa" and "w1 s = 0xaa" and "w2 s = 0xaa" and "w3 s = 0xaa"
  shows "step schar buf framadd i s = Inl (ReadPastEnd (length buf))"
  using assms by (simp add: step_def rd_def Let_def seek_past_end)

lemma seeking_run:
  assumes "\<forall>i\<in>set ix. i + 8 < length buf \<and> buf ! i \<noteq> 0xaa" and "counter s = 0"
  shows "\<exists>t. scan schar buf framadd ix s = Inr t \<and> counter t = 0"
  using assms
proof (induction ix arbitrary: s)
  case Nil
  then show ?case
    by simp
next
  case (Cons i ix)
  define u where "u = s\<lparr>w := buf ! i, w4 := w3 s, w3 := w2 s, w2 := w1 s, w1 := buf ! i\<rparr>"
  from Cons.prems have i: "i + 8 < length buf" "buf ! i \<noteq> 0xaa"
    by simp_all
  then have "\<forall>m\<in>set [0..<8]. i + m + 1 < length buf"
    by simp
  then obtain v where v: "stage buf i [0..<8] (i2c_data_temp s) = Inr v"
    using stage_within by blast
  have "step schar buf framadd i s = Inr (u\<lparr>odd_flag := 1, i2c_data_temp := v\<rparr>)"
    using i Cons.prems(2) v by (simp add: step_def rd_def Let_def seek_def u_def)
  moreover have "\<exists>t. scan schar buf framadd ix (u\<lparr>odd_flag := 1, i2c_data_temp := v\<rparr>) = Inr t \<and>
      counter t = 0"
    using Cons.prems by (intro Cons.IH) (simp_all add: u_def)
  ultimately show ?case
    by simp
qed


text \<open>
  C6.  The guard of the staging loop compares \<open>i + m\<close> with the buffer length
  \<^verbatim>\<open>datanum*4\<close>, but the byte read is \<^verbatim>\<open>buf[i + m + 1]\<close>.  On a buffer of exactly
  \<^verbatim>\<open>datanum*4 = 80000\<close> bytes, whenever the scanner is seeking in one of the last eight
  positions it reads \<^verbatim>\<open>buf[80000]\<close>, one byte past the end.  With the marker in the last
  four bytes this happens in the run as a whole (first at \<open>i = 79992\<close>), and it happens
  in the iteration \<open>i = 79999\<close> that detects the marker.
\<close>

theorem staging_reads_past_end:
  "data_cal schar junk (replicate 79996 0 @ [0xaa, 0xaa, 0xaa, 0xaa]) mp tmp i2c fc framadd out =
     Inl (ReadPastEnd 80000) \<and>
   step schar (replicate 79996 0 @ [0xaa, 0xaa, 0xaa, 0xaa]) framadd 79999
     (blank\<lparr>w1 := 0xaa, w2 := 0xaa, w3 := 0xaa\<rparr>) = Inl (ReadPastEnd 80000)"
proof
  define buf :: "byte list" where "buf = replicate 79996 0 @ [0xaa, 0xaa, 0xaa, 0xaa]"
  have len: "length buf = datanum * 4"
    by (simp add: buf_def datanum_def)
  have quiet: "\<forall>i\<in>set [0..<79992]. i + 8 < length buf \<and> buf ! i \<noteq> 0xaa"
    by (simp add: buf_def nth_append)
  have start: "counter (init junk mp tmp i2c fc out) = 0"
    by (simp add: init_def)
  obtain t where t: "scan schar buf framadd [0..<79992] (init junk mp tmp i2c fc out) = Inr t"
      "counter t = 0"
    using seeking_run [OF quiet start] by blast
  have fail: "step schar buf framadd 79992 t = Inl (ReadPastEnd (datanum * 4))"
    using t(2) len seek_past_end [of buf 79992]
    by (simp add: step_def rd_def Let_def datanum_def)
  have whole: "scan schar buf framadd ([0..<79992] @ 79992 # ix) (init junk mp tmp i2c fc out) =
      Inl (ReadPastEnd (datanum * 4))" for ix
    by (simp add: scan_append t(1) fail)
  have split: "[0..<datanum * 4] = [0..<79992] @ 79992 # [79993..<80000]"
    using upt_add_eq_append [of 0 79992 8] upt_conv_Cons [of 79992 80000]
    by (simp add: datanum_def)
  have "data_cal schar junk buf mp tmp i2c fc framadd out = Inl (ReadPastEnd (datanum * 4))"
    unfolding data_cal_def split by (rule whole)
  then show "data_cal schar junk (replicate 79996 0 @ [0xaa, 0xaa, 0xaa, 0xaa]) mp tmp i2c fc
      framadd out = Inl (ReadPastEnd 80000)"
    by (simp add: buf_def datanum_def)
  have "step schar buf framadd 79999 (blank\<lparr>w1 := 0xaa, w2 := 0xaa, w3 := 0xaa\<rparr>) =
      Inl (ReadPastEnd (length buf))"
    using len by (intro marker_at_end_reads_past_end)
      (simp_all add: datanum_def buf_def nth_append blank_def init_def)
  then show "step schar (replicate 79996 0 @ [0xaa, 0xaa, 0xaa, 0xaa]) framadd 79999
     (blank\<lparr>w1 := 0xaa, w2 := 0xaa, w3 := 0xaa\<rparr>) = Inl (ReadPastEnd 80000)"
    by (simp add: buf_def)
qed



section \<open>The pending row\<close>

lemma step_row:
  assumes "step schar buf framadd i s = Inr t"
  shows "row t =
     (if counter s \<noteq> 0 \<and> odd_flag s \<noteq> 1 \<and>
         pdata s + push_bit 8 (ucast (buf ! i)) \<noteq> tailer \<and> 6 < counter s + 1 \<and>
         pdata_pre1 s AND 0x1000 \<noteq> 0
      then uint (drop_bit 2 (pdata_pre1 s) AND 0x3ff) else row s)"
proof -
  define v where "v = s\<lparr>w := buf ! i, w4 := w3 s, w3 := w2 s, w2 := w1 s, w1 := buf ! i,
      pdata := pdata s + push_bit 8 (ucast (buf ! i)), odd_flag := 1,
      pdata_pre2 := pdata_pre1 s, pdata_pre1 := pdata s + push_bit 8 (ucast (buf ! i)),
      counter := counter s + 1, tsign := 0\<rparr>"
  consider (past) "\<not> i < length buf"
    | (seeking) "i < length buf" "counter s = 0"
    | (low) "i < length buf" "counter s \<noteq> 0" "odd_flag s = 1"
    | (first) "i < length buf" "counter s \<noteq> 0" "odd_flag s \<noteq> 1"
        "pdata s + push_bit 8 (ucast (buf ! i)) = tailer" "tsign s = 0"
    | (second) "i < length buf" "counter s \<noteq> 0" "odd_flag s \<noteq> 1"
        "pdata s + push_bit 8 (ucast (buf ! i)) = tailer" "tsign s \<noteq> 0"
    | (early) "i < length buf" "counter s \<noteq> 0" "odd_flag s \<noteq> 1"
        "pdata s + push_bit 8 (ucast (buf ! i)) \<noteq> tailer" "\<not> 6 < counter s + 1"
    | (coord) "i < length buf" "counter s \<noteq> 0" "odd_flag s \<noteq> 1"
        "pdata s + push_bit 8 (ucast (buf ! i)) \<noteq> tailer" "6 < counter s + 1"
    by blast
  then show ?thesis
  proof cases
    case past
    with assms show ?thesis
      by (simp add: step_def rd_def)
  next
    case seeking
    with assms show ?thesis
      using stage_cases [of buf i "[0..<8]" "i2c_data_temp s"]
      by (auto simp add: step_def rd_def Let_def seek_def split: if_splits)
  next
    case low
    with assms show ?thesis
      by (auto simp add: step_defs)
  next
    case first
    with assms show ?thesis
      by (auto simp add: step_defs)
  next
    case second
    with assms show ?thesis
      by (auto simp add: step_defs)
  next
    case early
    with assms show ?thesis
      by (auto simp add: step_defs)
  next
    case coord
    then have "step schar buf framadd i s = coordinate v"
      by (simp add: step_defs v_def)
    with assms have "coordinate v = Inr t"
      by simp
    then have "row t = (if pdata_pre2 v AND 0x1000 \<noteq> 0
        then uint (drop_bit 2 (pdata_pre2 v) AND 0x3ff) else row v)"
      using bump_cases [of "row v * 960 + uint (drop_bit 2 (pdata_pre2 v) AND 0x03ff)"
          "[0..<nat (uint (pdata_pre2 v AND 0x0003) + 1)]" "maps_temp v"]
      by (auto simp add: coordinate_def Let_def split: if_splits)
    with coord show ?thesis
      by (simp add: v_def)
  qed
qed


text \<open>
  C10.  \<open>row\<close> is 0 when \<^verbatim>\<open>data_cal\<close> starts.  An iteration of the loop changes it
  only when it decodes a row word; in particular the iteration that completes a frame
  and the iterations that seek or find the marker leave it as it is.  A column and
  code word is recorded on the row that is pending at that moment, whichever frame set
  it: the hit goes to \<open>row s\<close> of the state before the iteration.
\<close>

theorem pending_row_persists:
  assumes "step schar buf framadd i s = Inr t"
  shows "row (init junk mp tmp i2c fc out) = 0 \<and>
         row t =
           (if counter s \<noteq> 0 \<and> odd_flag s \<noteq> 1 \<and>
               pdata s + push_bit 8 (ucast (buf ! i)) \<noteq> tailer \<and> 6 < counter s + 1 \<and>
               pdata_pre1 s AND 0x1000 \<noteq> 0
            then uint (drop_bit 2 (pdata_pre1 s) AND 0x3ff) else row s) \<and>
         (counter s = 0 \<longrightarrow> row t = row s) \<and>
         (counter s \<noteq> 0 \<and> odd_flag s \<noteq> 1 \<and>
          pdata s + push_bit 8 (ucast (buf ! i)) = tailer \<longrightarrow> row t = row s \<and>
            (tsign s \<noteq> 0 \<longrightarrow> counter t = 0)) \<and>
         (counter s \<noteq> 0 \<and> odd_flag s \<noteq> 1 \<and>
          pdata s + push_bit 8 (ucast (buf ! i)) \<noteq> tailer \<and> 6 < counter s + 1 \<and>
          pdata_pre1 s AND 0x1000 = 0 \<and> 0 \<le> row s \<longrightarrow>
            maps_temp t = hit (row s) (uint (drop_bit 2 (pdata_pre1 s) AND 0x3ff))
                            (uint (pdata_pre1 s AND 0x3)) (maps_temp s))"
proof -
  have start: "row (init junk mp tmp i2c fc out) = 0"
    by (simp add: init_def)
  have r: "row t =
           (if counter s \<noteq> 0 \<and> odd_flag s \<noteq> 1 \<and>
               pdata s + push_bit 8 (ucast (buf ! i)) \<noteq> tailer \<and> 6 < counter s + 1 \<and>
               pdata_pre1 s AND 0x1000 \<noteq> 0
            then uint (drop_bit 2 (pdata_pre1 s) AND 0x3ff) else row s)"
    using assms by (rule step_row)
  have len: "i < length buf"
    using assms by (auto simp add: step_def rd_def split: if_splits)
  have closed: "counter t = 0"
    if "counter s \<noteq> 0 \<and> odd_flag s \<noteq> 1 \<and>
        pdata s + push_bit 8 (ucast (buf ! i)) = tailer" and "tsign s \<noteq> 0"
    using assms that len by (auto simp add: step_defs)
  have recorded: "maps_temp t = hit (row s) (uint (drop_bit 2 (pdata_pre1 s) AND 0x3ff))
                            (uint (pdata_pre1 s AND 0x3)) (maps_temp s)"
    if "counter s \<noteq> 0 \<and> odd_flag s \<noteq> 1 \<and>
        pdata s + push_bit 8 (ucast (buf ! i)) \<noteq> tailer \<and> 6 < counter s + 1 \<and>
        pdata_pre1 s AND 0x1000 = 0 \<and> 0 \<le> row s"
    using assms that len by (auto simp add: step_defs coordinate_eq)
  from start r closed recorded show ?thesis
    by auto
qed

theorem pending_row_persists_witness:
  "\<exists>s t. scan True
        [0xaa, 0xaa, 0xaa, 0xaa, 0, 0, 0, 0, 0, 0, 0, 0, 0x14, 0x10, 0x08, 0x00,
         0x78, 0x56, 0x78, 0x56,
         0xaa, 0xaa, 0xaa, 0xaa, 0, 0, 0, 0, 0, 0, 0, 0, 0x08, 0x00, 0x00, 0x00]
        5
        [0..<35]
        blank = Inr s \<and>
      step True
        [0xaa, 0xaa, 0xaa, 0xaa, 0, 0, 0, 0, 0, 0, 0, 0, 0x14, 0x10, 0x08, 0x00,
         0x78, 0x56, 0x78, 0x56,
         0xaa, 0xaa, 0xaa, 0xaa, 0, 0, 0, 0, 0, 0, 0, 0, 0x08, 0x00, 0x00, 0x00]
        5 35 s = Inr t \<and>
      fcounter s = 1 \<and> row s = 5 \<and> row t = 5 \<and>
      maps_temp s (5 * 960 + 2) = 0 \<and> maps_temp t (5 * 960 + 2) = 1"
proof -
  define buf :: "byte list" where "buf =
        [0xaa, 0xaa, 0xaa, 0xaa, 0, 0, 0, 0, 0, 0, 0, 0, 0x14, 0x10, 0x08, 0x00,
         0x78, 0x56, 0x78, 0x56,
         0xaa, 0xaa, 0xaa, 0xaa, 0, 0, 0, 0, 0, 0, 0, 0, 0x08, 0x00, 0x00, 0x00]"
  obtain s where s: "scan True buf 5
        [0..<35] blank = Inr s"
      "fcounter s = 1" "row s = 5" "counter s = 6" "odd_flag s = 0" "pdata s = 0"
      "pdata_pre1 s = 0x0008" "maps_temp s (5 * 960 + 2) = 0"
    by (simp add: buf_def blank_def init_def step_defs seek_def datanum_def
        tailer_def upt_conv_Cons coordinate_eq hit_def end_of_frame_eq)
  have "\<exists>t. step True buf 5 35 s = Inr t"
    using s(3-7) by (simp add: step_defs coordinate_eq tailer_def buf_def)
  then obtain t where t: "step True buf 5 35 s = Inr t"
    by blast
  have last: "buf ! 35 = 0"
    by (simp add: buf_def)
  from pending_row_persists [OF t, of "\<lambda>_. 0" "\<lambda>_. 0" "\<lambda>_. 0" "\<lambda>_. 0" 0 "[]"]
  have "row t = 5" "maps_temp t = hit 5 2 0 (maps_temp s)"
    using s(3-7) last by (simp_all add: tailer_def)
  then have "row t = 5" "maps_temp t (5 * 960 + 2) = 1"
    using s(8) by (simp_all add: hit_def)
  with s t show ?thesis
    unfolding buf_def by blast
qed



section \<open>The FIFO read command\<close>

lemma low_half: "(0x0000ffff AND x) = take_bit 16 (x :: uint32)"
proof -
  have "(0x0000ffff :: uint32) = mask 16"
    by (simp add: mask_eq_exp_minus_1)
  then show ?thesis
    by (simp only: take_bit_eq_mask and.commute)
qed

lemma network_order:
  "mem_bytes le (htonl le x) = [byte_at 3 x, byte_at 2 x, byte_at 1 x, byte_at 0 x]"
proof (cases le)
  case False
  then show ?thesis
    by (simp add: mem_bytes_def htonl_def)
next
  case True
  have "byte_at 0 (bswap32 x) = byte_at 3 x" "byte_at 1 (bswap32 x) = byte_at 2 x"
    "byte_at 2 (bswap32 x) = byte_at 1 x" "byte_at 3 (bswap32 x) = byte_at 0 x"
    by (auto simp add: byte_at_def bswap32_def bit_eq_iff bit_simps dest: bit_imp_le_length)
  with True show ?thesis
    by (simp add: mem_bytes_def htonl_def)
qed


lemma conv32_two:
  assumes "2 \<le> length buf"
  shows "conv32network_endian le buf 2 =
     Inr (buf[0 := htonl le (buf ! 0), 1 := htonl le (buf ! 1)])"
proof -
  have "[0..<2] = [0, 1]"
    by (simp add: upt_conv_Cons)
  with assms show ?thesis
    by (auto simp add: conv32network_endian_def)
qed

lemma fifo_words:
  fixes n :: uint32
  shows "(0xffff0000 AND push_bit 16 0x001a) OR (0x0000ffff AND drop_bit 16 n) =
           push_bit 16 0x001a OR drop_bit 16 n"
    and "(0xffff0000 AND push_bit 16 0x0019) OR (0x0000ffff AND n) =
           push_bit 16 0x0019 OR take_bit 16 n"
proof -
  have "take_bit 16 (drop_bit 16 n) = drop_bit 16 n"
    by (auto simp add: bit_eq_iff bit_simps dest: bit_imp_le_length)
  then show "(0xffff0000 AND push_bit 16 0x001a) OR (0x0000ffff AND drop_bit 16 n) =
           push_bit 16 0x001a OR drop_bit 16 n"
    by (simp add: low_half)
  show "(0xffff0000 AND push_bit 16 0x0019) OR (0x0000ffff AND n) =
           push_bit 16 0x0019 OR take_bit 16 n"
    by (simp add: low_half)
qed

lemma halves_bytes:
  fixes a n :: uint32
  shows "byte_at 3 (push_bit 16 a OR drop_bit 16 n) = byte_at 1 a"
    and "byte_at 2 (push_bit 16 a OR drop_bit 16 n) = byte_at 0 a"
    and "byte_at 1 (push_bit 16 a OR drop_bit 16 n) = byte_at 3 n"
    and "byte_at 0 (push_bit 16 a OR drop_bit 16 n) = byte_at 2 n"
    and "byte_at 3 (push_bit 16 a OR take_bit 16 n) = byte_at 1 a"
    and "byte_at 2 (push_bit 16 a OR take_bit 16 n) = byte_at 0 a"
    and "byte_at 1 (push_bit 16 a OR take_bit 16 n) = byte_at 1 n"
    and "byte_at 0 (push_bit 16 a OR take_bit 16 n) = byte_at 0 n"
  by (auto simp add: byte_at_def bit_eq_iff bit_simps dest: bit_imp_le_length)

lemma marker_bytes:
  "byte_at 1 (0x001a :: uint32) = 0x00" "byte_at 0 (0x001a :: uint32) = 0x1a"
  "byte_at 1 (0x0019 :: uint32) = 0x00" "byte_at 0 (0x0019 :: uint32) = 0x19"
  by (simp_all add: byte_at_def)


text \<open>
  C9.  Given a buffer of at least two words, \<^verbatim>\<open>cmd_read_datafifo\<close> returns 8 and leaves
  \<^verbatim>\<open>*bufio\<close> pointing to the same buffer, of which exactly the words 0 and 1 are
  written.  Word 0 is the network-order form of \<open>0x001a\<close> in the high half and the high
  16 bits of \<open>n\<close> in the low half; word 1 that of \<open>0x0019\<close> and the low 16 bits of \<open>n\<close>.
  In memory, on either kind of host, the eight bytes are
  \<open>00 1a n3 n2 00 19 n1 n0\<close> with \<open>n3\<close> the most significant byte of \<open>n\<close>.
\<close>

theorem read_datafifo_words:
  assumes "2 \<le> length buf"
  shows "\<exists>out. cmd_read_datafifo le calloc_ok (Some buf) n = Inr (8, Some out) \<and>
           length out = length buf \<and>
           (\<forall>k. 2 \<le> k \<longrightarrow> out ! k = buf ! k) \<and>
           out ! 0 = htonl le (push_bit 16 0x001a OR drop_bit 16 n) \<and>
           out ! 1 = htonl le (push_bit 16 0x0019 OR take_bit 16 n) \<and>
           mem_bytes le (out ! 0) = [0x00, 0x1a, byte_at 3 n, byte_at 2 n] \<and>
           mem_bytes le (out ! 1) = [0x00, 0x19, byte_at 1 n, byte_at 0 n]"
proof -
  define x0 :: uint32 where "x0 = push_bit 16 0x001a OR drop_bit 16 n"
  define x1 :: uint32 where "x1 = push_bit 16 0x0019 OR take_bit 16 n"
  define out where "out = buf[0 := htonl le x0, 1 := htonl le x1]"
  have stored: "put32 buf 0 x0 = Inr (buf[0 := x0])"
    "put32 (buf[0 := x0]) 1 x1 = Inr (buf[0 := x0, 1 := x1])"
    using assms by (auto simp add: put32_def)
  have ne: "buf \<noteq> []"
    using assms by auto
  have read: "buf[0 := x0, 1 := x1] ! 0 = x0" "buf[0 := x0, 1 := x1] ! 1 = x1"
    using assms ne by (simp_all add: nth_list_update)
  have "(buf[0 := x0, 1 := x1])[0 := htonl le x0, 1 := htonl le x1] = out"
    unfolding out_def using assms ne by (intro nth_equalityI) (auto simp add: nth_list_update)
  moreover have "2 \<le> length (buf[0 := x0, 1 := x1])"
    using assms by simp
  ultimately have conv: "conv32network_endian le (buf[0 := x0, 1 := x1]) 2 = Inr out"
    by (simp only: conv32_two read)
  have run: "cmd_read_datafifo le calloc_ok (Some buf) n = Inr (8, Some out)"
    unfolding cmd_read_datafifo_def fifo_words x0_def [symmetric] x1_def [symmetric]
    by (simp only: option.case stored sum.case conv) simp
  have words: "out ! 0 = htonl le x0" "out ! 1 = htonl le x1"
    using assms ne by (simp_all add: out_def nth_list_update)
  have "mem_bytes le (out ! 0) = [0x00, 0x1a, byte_at 3 n, byte_at 2 n]"
    unfolding words network_order x0_def halves_bytes marker_bytes by (rule refl)
  moreover have "mem_bytes le (out ! 1) = [0x00, 0x19, byte_at 1 n, byte_at 0 n]"
    unfolding words network_order x1_def halves_bytes marker_bytes by (rule refl)
  moreover have "length out = length buf" "\<forall>k. 2 \<le> k \<longrightarrow> out ! k = buf ! k"
    by (simp_all add: out_def)
  ultimately show ?thesis
    using run words unfolding x0_def x1_def by blast
qed

theorem read_datafifo_words_witness:
  "cmd_read_datafifo True False (Some [0xdeadbeef, 0, 7]) 0x00012345 =
     Inr (8, Some [0x01001a00, 0x45231900, 7]) \<and>
   mem_bytes True 0x01001a00 = [0x00, 0x1a, 0x00, 0x01] \<and>
   mem_bytes True 0x45231900 = [0x00, 0x19, 0x23, 0x45]"
  using read_datafifo_words [of "[0xdeadbeef, 0, 7]" True False "0x00012345"]
  by (simp add: cmd_read_datafifo_def put32_def conv32network_endian_def upt_conv_Cons
      htonl_def bswap32_def byte_at_def mem_bytes_def)

section \<open>Ranges of the locals and safety of the accesses\<close>

lemma ten_bits: "0 \<le> uint (drop_bit 2 x AND 0x03ff) \<and> uint (drop_bit 2 x AND 0x03ff) < 1024"
  for x :: ushort
proof -
  have "drop_bit 2 x AND 0x03ff \<le> 0x03ff"
    by (rule word_and_le1)
  then have "uint (drop_bit 2 x AND 0x03ff) \<le> uint (0x03ff :: ushort)"
    by (simp only: word_le_def)
  then show ?thesis
    by simp
qed

lemma two_bits: "0 \<le> uint (x AND 0x0003) \<and> uint (x AND 0x0003) < 4"
  for x :: ushort
proof -
  have "x AND 0x0003 \<le> 0x0003"
    by (rule word_and_le1)
  then have "uint (x AND 0x0003) \<le> uint (0x0003 :: ushort)"
    by (simp only: word_le_def)
  then show ?thesis
    by simp
qed

lemma ranges_init: "ranges (init junk mp tmp i2c fc out)"
  by (simp add: ranges_def init_def)

lemma ranges_step:
  assumes "ranges s" and "step schar buf framadd i s = Inr t"
  shows "ranges t \<and> counter t \<le> counter s + 1"
proof -
  define v where "v = s\<lparr>w := buf ! i, w4 := w3 s, w3 := w2 s, w2 := w1 s, w1 := buf ! i,
      pdata := pdata s + push_bit 8 (ucast (buf ! i)), odd_flag := 1,
      pdata_pre2 := pdata_pre1 s, pdata_pre1 := pdata s + push_bit 8 (ucast (buf ! i)),
      counter := counter s + 1, tsign := 0\<rparr>"
  have row: "0 \<le> row s"
    using assms(1) by (simp add: ranges_def)
  consider (past) "\<not> i < length buf"
    | (seeking) "i < length buf" "counter s = 0"
    | (low) "i < length buf" "counter s \<noteq> 0" "odd_flag s = 1"
    | (first) "i < length buf" "counter s \<noteq> 0" "odd_flag s \<noteq> 1"
        "pdata s + push_bit 8 (ucast (buf ! i)) = tailer" "tsign s = 0"
    | (second) "i < length buf" "counter s \<noteq> 0" "odd_flag s \<noteq> 1"
        "pdata s + push_bit 8 (ucast (buf ! i)) = tailer" "tsign s \<noteq> 0"
    | (early) "i < length buf" "counter s \<noteq> 0" "odd_flag s \<noteq> 1"
        "pdata s + push_bit 8 (ucast (buf ! i)) \<noteq> tailer" "\<not> 6 < counter s + 1"
    | (coord) "i < length buf" "counter s \<noteq> 0" "odd_flag s \<noteq> 1"
        "pdata s + push_bit 8 (ucast (buf ! i)) \<noteq> tailer" "6 < counter s + 1"
    by blast
  then show ?thesis
  proof cases
    case past
    with assms show ?thesis
      by (simp add: step_def rd_def)
  next
    case seeking
    with assms show ?thesis
      using stage_cases [of buf i "[0..<8]" "i2c_data_temp s"]
      by (cases "buf ! i = 0xaa \<and> w1 s = 0xaa \<and> w2 s = 0xaa \<and> w3 s = 0xaa")
        (auto simp add: step_def rd_def Let_def seek_def ranges_def)
  next
    case low
    with assms show ?thesis
      by (clarsimp simp add: step_defs ranges_def)
  next
    case first
    with assms show ?thesis
      by (clarsimp simp add: step_defs ranges_def)
  next
    case second
    have "0 \<le> channel schar (i2c_data_temp s) \<and> channel schar (i2c_data_temp s) < 4"
      using channel_range [of schar "i2c_data_temp s"] by auto
    with second assms show ?thesis
      by (clarsimp simp add: step_defs ranges_def end_of_frame_ch)
  next
    case early
    with assms show ?thesis
      by (clarsimp simp add: step_defs ranges_def)
  next
    case coord
    then have "step schar buf framadd i s = coordinate v"
      by (simp add: step_defs v_def)
    with assms(2) have cv: "coordinate v = Inr t"
      by simp
    have rv: "0 \<le> row v"
      using row by (simp add: v_def)
    show ?thesis
    proof (cases "pdata_pre2 v AND 0x1000 \<noteq> 0")
      case True
      with cv have "t = v\<lparr>row := uint (drop_bit 2 (pdata_pre2 v) AND 0x03ff)\<rparr>"
        unfolding coordinate_eq [OF rv] by auto
      then show ?thesis
        using assms(1) ten_bits [of "pdata_pre2 v"] by (simp add: ranges_def v_def)
    next
      case False
      with cv have "t = v\<lparr>column := uint (drop_bit 2 (pdata_pre2 v) AND 0x03ff),
                 code := uint (pdata_pre2 v AND 0x0003),
                 maps_temp := hit (row v) (uint (drop_bit 2 (pdata_pre2 v) AND 0x03ff))
                                (uint (pdata_pre2 v AND 0x0003)) (maps_temp v)\<rparr>"
        unfolding coordinate_eq [OF rv] by auto
      then show ?thesis
        using assms(1) ten_bits [of "pdata_pre2 v"] two_bits [of "pdata_pre2 v"]
        by (simp add: ranges_def v_def)
    qed
  qed
qed

lemma scan_keeps_ranges:
  assumes "ranges s" and "scan schar buf framadd ix s = Inr t"
  shows "ranges t \<and> counter t \<le> counter s + int (length ix)"
  using assms
proof (induction ix arbitrary: s)
  case Nil
  then show ?case
    by simp
next
  case (Cons i ix)
  from Cons.prems(2) obtain u where u: "step schar buf framadd i s = Inr u"
      "scan schar buf framadd ix u = Inr t"
    by (auto split: sum.splits)
  from ranges_step [OF Cons.prems(1) u(1)] have "ranges u" "counter u \<le> counter s + 1"
    by simp_all
  with Cons.IH [OF _ u(2)] show ?case
    by simp
qed

lemma stage_guarded:
  assumes "\<forall>m\<in>set ms. i + m < datanum * 4 \<longrightarrow> i + m + 1 < length buf"
  shows "\<exists>u. stage buf i ms t = Inr u"
  using assms by (induction ms arbitrary: t) (simp_all add: rd_def)

lemma step_returns:
  assumes "ranges s" and "i < datanum * 4" and "datanum * 4 < length buf"
  shows "\<exists>t. step schar buf framadd i s = Inr t"
proof (cases "counter s = 0")
  case True
  have "\<forall>m\<in>set [0..<8]. i + m < datanum * 4 \<longrightarrow> i + m + 1 < length buf"
    using assms(3) by simp
  then obtain u where "stage buf i [0..<8] (i2c_data_temp s) = Inr u"
    using stage_guarded by blast
  with True assms(2,3) show ?thesis
    by (simp add: step_def rd_def Let_def seek_def)
next
  case False
  have "0 \<le> row s"
    using assms(1) by (simp add: ranges_def)
  with False assms(2,3) show ?thesis
    by (simp add: step_defs coordinate_eq)
qed

lemma scan_returns:
  assumes "ranges s" and "\<forall>i\<in>set ix. i < datanum * 4" and "datanum * 4 < length buf"
  shows "\<exists>t. scan schar buf framadd ix s = Inr t"
  using assms(1,2)
proof (induction ix arbitrary: s)
  case Nil
  then show ?case
    by simp
next
  case (Cons i ix)
  then obtain u where u: "step schar buf framadd i s = Inr u"
    using step_returns [where s = s and i = i and buf = buf and schar = schar
        and framadd = framadd] assms(3) by auto
  with Cons.prems(1) have "ranges u"
    using ranges_step by blast
  with Cons.IH [of u] Cons.prems(2) u show ?case
    by simp
qed

text \<open>
  Every state of a run that starts from the initial locals keeps the \<^verbatim>\<open>int\<close> locals
  within the ranges of \<open>ranges\<close>, and \<open>counter\<close> grows by at most one per iteration: in
  a call it never exceeds 80000, far from the limit of a 32-bit \<^verbatim>\<open>int\<close>.
\<close>

theorem ranges_scan:
  assumes "scan schar buf framadd ix (init junk mp tmp i2c fc out) = Inr t"
  shows "ranges t \<and> counter t \<le> int (length ix)"
  using scan_keeps_ranges [OF ranges_init assms] by (simp add: init_def)

theorem ranges_scan_witness:
  "ranges blank \<and> counter blank \<le> int (length ([] :: nat list))"
  using ranges_scan [of True "[]" 5 "[]" "\<lambda>_. 0" "\<lambda>_. 0" "\<lambda>_. 0" "\<lambda>_. 0" 0 "[]" blank]
  by (simp add: blank_def)

text \<open>
  On a buffer of more than \<^verbatim>\<open>datanum*4\<close> bytes a call makes no access outside the buffer
  or outside \<^verbatim>\<open>maps_temp\<close>: it returns a final state.
\<close>

theorem data_cal_returns:
  assumes "datanum * 4 < length databuf"
  shows "\<exists>t. data_cal schar junk databuf mp tmp i2c fc framadd out = Inr t \<and> ranges t \<and>
           counter t \<le> 80000"
proof -
  obtain t where t: "scan schar databuf framadd [0..<datanum * 4] (init junk mp tmp i2c fc out) = Inr t"
    using scan_returns [where s = "init junk mp tmp i2c fc out" and ix = "[0..<datanum * 4]"
        and buf = databuf and schar = schar and framadd = framadd] ranges_init assms
    by auto
  from scan_keeps_ranges [OF ranges_init t] have "ranges t" "counter t \<le> 80000"
    by (simp_all add: init_def datanum_def)
  with t show ?thesis
    by (simp add: data_cal_def)
qed

theorem data_cal_returns_witness:
  "\<exists>t. data_cal True (\<lambda>_. 0) (replicate 80001 0) (\<lambda>_. 0) (\<lambda>_. 0) (\<lambda>_. 0) 0 5 [] = Inr t \<and>
       ranges t \<and> counter t \<le> 80000"
  using data_cal_returns [of "replicate 80001 0" True "\<lambda>_. 0" "\<lambda>_. 0" "\<lambda>_. 0" "\<lambda>_. 0" 0 5 "[]"]
  by (simp add: datanum_def)


section \<open>Staged bytes above 127\<close>

lemma seeking_run_keeps:
  assumes "\<forall>i\<in>set ix. i < datanum * 4 \<and> buf ! i \<noteq> 0xaa" and "datanum * 4 < length buf"
    and "counter s = 0"
  shows "\<exists>t. scan schar buf framadd ix s = Inr t \<and> counter t = 0 \<and>
           i2c_data t = i2c_data s \<and> ch t = ch s \<and> fcounter t = fcounter s \<and>
           stdout t = stdout s"
  using assms
proof (induction ix arbitrary: s)
  case Nil
  then show ?case
    by simp
next
  case (Cons i ix)
  define u where "u = s\<lparr>w := buf ! i, w4 := w3 s, w3 := w2 s, w2 := w1 s, w1 := buf ! i\<rparr>"
  from Cons.prems have i: "i < length buf" "buf ! i \<noteq> 0xaa"
    by simp_all
  have "\<forall>m\<in>set [0..<8]. i + m < datanum * 4 \<longrightarrow> i + m + 1 < length buf"
    using Cons.prems(2) by simp
  then obtain v where v: "stage buf i [0..<8] (i2c_data_temp s) = Inr v"
    using stage_guarded by blast
  have "step schar buf framadd i s = Inr (u\<lparr>odd_flag := 1, i2c_data_temp := v\<rparr>)"
    using i Cons.prems(3) v by (simp add: step_def rd_def Let_def seek_def u_def)
  moreover have "\<exists>t. scan schar buf framadd ix (u\<lparr>odd_flag := 1, i2c_data_temp := v\<rparr>) = Inr t \<and>
      counter t = 0 \<and> i2c_data t = i2c_data (u\<lparr>odd_flag := 1, i2c_data_temp := v\<rparr>) \<and>
      ch t = ch (u\<lparr>odd_flag := 1, i2c_data_temp := v\<rparr>) \<and>
      fcounter t = fcounter (u\<lparr>odd_flag := 1, i2c_data_temp := v\<rparr>) \<and>
      stdout t = stdout (u\<lparr>odd_flag := 1, i2c_data_temp := v\<rparr>)"
    using Cons.prems by (intro Cons.IH) (simp_all add: u_def)
  ultimately show ?case
    by (simp add: u_def)
qed

lemma frame_then_zeros:
  fixes frame :: "byte list"
  assumes "length frame = 16"
    and "scan schar (frame @ replicate 79985 0) framadd [0..<16] (init junk mp tmp i2c fc out) = Inr u"
    and "counter u = 0"
  shows "\<exists>t. data_cal schar junk (frame @ replicate 79985 0) mp tmp i2c fc framadd out = Inr t \<and>
           i2c_data t = i2c_data u \<and> ch t = ch u \<and> fcounter t = fcounter u \<and>
           stdout t = stdout u"
proof -
  have rest: "\<forall>i\<in>set [16..<80000]. i < datanum * 4 \<and>
      (frame @ replicate 79985 0) ! i \<noteq> 0xaa"
    using assms(1) by (auto simp add: nth_append datanum_def simp del: upt_rec_numeral)
  have len: "datanum * 4 < length (frame @ replicate 79985 0)"
    using assms(1) by (simp add: datanum_def)
  have split: "[0..<datanum * 4] = [0..<16] @ [16..<80000]"
    using upt_add_eq_append [of 0 16 79984] by (simp add: datanum_def del: upt_rec_numeral)
  show ?thesis
    unfolding data_cal_def split scan_append assms(2)
    using seeking_run_keeps [OF rest len assms(3), of schar framadd]
    by (auto simp del: upt_rec_numeral)
qed

text \<open>
  C5.  The staged block is an array of plain \<^verbatim>\<open>char\<close>, while the buffer it is filled from
  and the byte history are \<^verbatim>\<open>unsigned char\<close>.  Where plain \<^verbatim>\<open>char\<close> is signed, the
  telemetry expressions read an entry above 127 as a negative number, and the record
  does not receive the values of the formulas on the bytes 0 to 255.  On the buffer
  below (the marker, the block \<^verbatim>\<open>00 2F 01 80 10 40 0F 80\<close>, two terminator words, then zeros
  up to 80001 bytes) a call stores the frame counter \<open>0x0F0080\<close> and the channel value
  \<open>0x280\<close>, where the formulas give \<open>0x0F0180\<close> and \<open>0x380\<close>; where plain \<^verbatim>\<open>char\<close> is
  unsigned it stores these.  The latch-up status, the temperature and the channel
  identifier are the same in both cases here.  With \<open>0x80\<close> in entry 3 of the block and 0
  elsewhere, the frame counter stored is \<open>0xFFFFFF80\<close> in place of \<open>0x80\<close>.
\<close>

theorem plain_char_sign_extension:
  "(\<exists>t. data_cal True junk
          ([0xaa, 0xaa, 0xaa, 0xaa, 0x00, 0x2f, 0x01, 0x80, 0x10, 0x40, 0x0f, 0x80,
            0x78, 0x56, 0x78, 0x56] @ replicate 79985 0)
          mp tmp i2c fc framadd out = Inr t \<and>
        i2c_data t 0 = 0x0F0080 \<and> i2c_data t 1 = 2 \<and> i2c_data t 2 = 0x10 \<and>
        i2c_data t 7 = 3 \<and> ch t = 3 \<and> i2c_data t 6 = 0x280) \<and>
   (\<exists>t. data_cal False junk
          ([0xaa, 0xaa, 0xaa, 0xaa, 0x00, 0x2f, 0x01, 0x80, 0x10, 0x40, 0x0f, 0x80,
            0x78, 0x56, 0x78, 0x56] @ replicate 79985 0)
          mp tmp i2c fc framadd out = Inr t \<and>
        i2c_data t 0 = 0x0F0180 \<and> i2c_data t 1 = 2 \<and> i2c_data t 2 = 0x10 \<and>
        i2c_data t 7 = 3 \<and> ch t = 3 \<and> i2c_data t 6 = 0x380) \<and>
   i2c_data (telemetry True (blank\<lparr>i2c_data_temp := (\<lambda>m. if m = 3 then 0x80 else 0)\<rparr>)) 0 =
     0xFFFFFF80 \<and>
   i2c_data (telemetry False (blank\<lparr>i2c_data_temp := (\<lambda>m. if m = 3 then 0x80 else 0)\<rparr>)) 0 =
     0x80"
proof -
  define frame :: "byte list" where "frame =
     [0xaa, 0xaa, 0xaa, 0xaa, 0x00, 0x2f, 0x01, 0x80, 0x10, 0x40, 0x0f, 0x80,
      0x78, 0x56, 0x78, 0x56]"
  have len: "length frame = 16"
    by (simp add: frame_def)
  obtain u where u: "scan True (frame @ replicate 79985 0) framadd [0..<16]
        (init junk mp tmp i2c fc out) = Inr u" "counter u = 0"
      "i2c_data u 0 = 0x0F0080" "i2c_data u 1 = 2" "i2c_data u 2 = 0x10"
      "i2c_data u 7 = 3" "ch u = 3" "i2c_data u 6 = 0x280"
    by (simp add: frame_def init_def step_defs seek_def datanum_def tailer_def upt_conv_Cons
        end_of_frame_eq telemetry_i2c channel_def channel_value_def char_val_def nth_append)
  obtain v where v: "scan False (frame @ replicate 79985 0) framadd [0..<16]
        (init junk mp tmp i2c fc out) = Inr v" "counter v = 0"
      "i2c_data v 0 = 0x0F0180" "i2c_data v 1 = 2" "i2c_data v 2 = 0x10"
      "i2c_data v 7 = 3" "ch v = 3" "i2c_data v 6 = 0x380"
    by (simp add: frame_def init_def step_defs seek_def datanum_def tailer_def upt_conv_Cons
        end_of_frame_eq telemetry_i2c channel_def channel_value_def char_val_def nth_append)
  have signed: "\<exists>t. data_cal True junk (frame @ replicate 79985 0) mp tmp i2c fc framadd out =
        Inr t \<and>
      i2c_data t 0 = 0x0F0080 \<and> i2c_data t 1 = 2 \<and> i2c_data t 2 = 0x10 \<and>
      i2c_data t 7 = 3 \<and> ch t = 3 \<and> i2c_data t 6 = 0x280"
    using frame_then_zeros [OF len u(1,2)] u(3-8) by auto
  have unsigned: "\<exists>t. data_cal False junk (frame @ replicate 79985 0) mp tmp i2c fc framadd out =
        Inr t \<and>
      i2c_data t 0 = 0x0F0180 \<and> i2c_data t 1 = 2 \<and> i2c_data t 2 = 0x10 \<and>
      i2c_data t 7 = 3 \<and> ch t = 3 \<and> i2c_data t 6 = 0x380"
    using frame_then_zeros [OF len v(1,2)] v(3-8) by auto
  have entry: "i2c_data (telemetry True
        (blank\<lparr>i2c_data_temp := (\<lambda>m. if m = 3 then 0x80 else 0)\<rparr>)) 0 = 0xFFFFFF80"
      "i2c_data (telemetry False
        (blank\<lparr>i2c_data_temp := (\<lambda>m. if m = 3 then 0x80 else 0)\<rparr>)) 0 = 0x80"
    by (simp_all add: telemetry_i2c char_val_def blank_def init_def channel_def)
  from signed unsigned entry show ?thesis
    unfolding frame_def by blast
qed

text \<open>
  Without a buffer (\<^verbatim>\<open>*bufio\<close> is \<^verbatim>\<open>NULL\<close>), \<^verbatim>\<open>cmd_read_datafifo\<close> allocates two words:
  when that fails it returns \<^verbatim>\<open>-1\<close> and leaves \<^verbatim>\<open>*bufio\<close> as it was; otherwise it
  returns 8 and \<^verbatim>\<open>*bufio\<close> holds the two command words.
\<close>

theorem read_datafifo_allocation:
  "cmd_read_datafifo le False None n = Inr (- 1, None) \<and>
   cmd_read_datafifo le True None n =
     Inr (8, Some [htonl le (push_bit 16 0x001a OR drop_bit 16 n),
                   htonl le (push_bit 16 0x0019 OR take_bit 16 n)])"
proof -
  have "conv32network_endian le [x, y] 2 = Inr [htonl le x, htonl le y]" for x y
    by (simp add: conv32_two)
  moreover have "replicate 2 (0 :: uint32) = [0, 0]"
    by (simp add: numeral_2_eq_2)
  ultimately show ?thesis
    unfolding cmd_read_datafifo_def fifo_words by (simp add: put32_def)
qed

end
